theory Spec2Isabelle
  imports Complex_Main
begin

section \<open>The SVG 1.1 (full) type checker of svgwrite\<close>

text \<open>
  The development embeds \<^verbatim>\<open>svgwrite/data/full11typechecker.py\<close>. The file is
  Python 2 code (\<^verbatim>\<open>basestring\<close>, an implicit relative import), so the builtins it
  calls (\<^verbatim>\<open>float\<close>, \<^verbatim>\<open>int\<close>, \<^verbatim>\<open>str\<close>, \<^verbatim>\<open>str.strip\<close>,
  \<^verbatim>\<open>str.split\<close>, \<^verbatim>\<open>re.match\<close>, \<^verbatim>\<open>re.split\<close>) are modelled with their
  Python 2.7 behaviour. An exception is a value: every function that can raise returns
  \<open>pyerr + 'a\<close>, with \<open>Inl\<close> for the exception.
\<close>

subsection \<open>Python values\<close>

text \<open>
  A float is a sign, a mantissa and a binary exponent (the value is
  \<open>\<plusminus> m * 2 ^ e\<close>), an infinity with its sign, or a NaN. Python 2 has two types
  of integers: \<open>PInt\<close> is the type \<^verbatim>\<open>int\<close> of machine integers, and \<open>PLong\<close> the
  type \<^verbatim>\<open>long\<close>, which every integer beyond \<^verbatim>\<open>sys.maxint\<close> has and which is no
  subclass of \<^verbatim>\<open>int\<close>. \<open>PBool\<close> is the type \<^verbatim>\<open>bool\<close>, a subclass of
  \<^verbatim>\<open>int\<close>, and \<open>PStr\<close> the byte-string type \<^verbatim>\<open>str\<close>.
\<close>

datatype pyfloat = Finite bool nat int | Inf bool | NaN

datatype pyval =
    PNone
  | PBool bool
  | PInt int
  | PLong int
  | PFloat pyfloat
  | PStr string
  | PTuple "pyval list"
  | PList "pyval list"

datatype pyerr = TypeError | ValueError | AttributeError | OverflowError

subsection \<open>String builtins\<close>

definition py_isspace :: "char \<Rightarrow> bool" where
  "py_isspace c \<longleftrightarrow> c \<in> set [CHR 0x20, CHR 0x09, CHR 0x0A, CHR 0x0D, CHR 0x0B, CHR 0x0C]"

definition py_strip :: "string \<Rightarrow> string" where
  "py_strip s = rev (dropWhile py_isspace (rev (dropWhile py_isspace s)))"

text \<open>\<^verbatim>\<open>s.split(sep)\<close> for a one-character separator: never empty, \<^verbatim>\<open>''.split(' ') == ['']\<close>.\<close>

fun py_split :: "char \<Rightarrow> string \<Rightarrow> string list" where
  "py_split sep [] = [[]]"
| "py_split sep (x # xs) =
     (if x = sep then [] # py_split sep xs
      else (case py_split sep xs of
              [] \<Rightarrow> [[x]]
            | w # ws \<Rightarrow> (x # w) # ws))"

definition is_digit :: "char \<Rightarrow> bool" where
  "is_digit c \<longleftrightarrow> c \<in> set ''0123456789''"

definition drop_sign :: "string \<Rightarrow> string" where
  "drop_sign s = (case s of [] \<Rightarrow> [] | c # cs \<Rightarrow> if c = CHR ''+'' \<or> c = CHR ''-'' then cs else s)"

definition lower_char :: "char \<Rightarrow> char" where
  "lower_char c =
     (case map_of (zip ''ABCDEFGHIJKLMNOPQRSTUVWXYZ'' ''abcdefghijklmnopqrstuvwxyz'') c of
        Some l \<Rightarrow> l | None \<Rightarrow> c)"

subsection \<open>Regular expressions with backtracking\<close>

text \<open>
  The matcher of \<^verbatim>\<open>re\<close> tries the alternatives of a pattern in a fixed order and
  returns the first way to match. \<open>rmatch r (s, g)\<close> lists, in that order, every way to
  match \<open>r\<close> at the start of \<open>s\<close>: the rest of the string and the groups captured.
  A greedy repetition lists the longer matches first.
\<close>

datatype regex =
    Lit char
  | Dot
  | Cls "char list"
  | Eps
  | Cat regex regex
  | Alt regex regex
  | Star regex
  | Grp nat regex

type_synonym mstate = "string \<times> (nat \<rightharpoonup> string)"

fun star_iter :: "(mstate \<Rightarrow> mstate list) \<Rightarrow> nat \<Rightarrow> mstate \<Rightarrow> mstate list" where
  "star_iter f 0 st = [st]"
| "star_iter f (Suc n) st =
     concat (map (\<lambda>st'. if length (fst st') < length (fst st) then star_iter f n st' else [])
                 (f st)) @ [st]"

primrec rmatch :: "regex \<Rightarrow> mstate \<Rightarrow> mstate list" where
  "rmatch (Lit c) st =
     (case fst st of [] \<Rightarrow> [] | x # xs \<Rightarrow> if x = c then [(xs, snd st)] else [])"
| "rmatch Dot st =
     (case fst st of [] \<Rightarrow> [] | x # xs \<Rightarrow> if x \<noteq> CHR 0x0A then [(xs, snd st)] else [])"
| "rmatch (Cls cs) st =
     (case fst st of [] \<Rightarrow> [] | x # xs \<Rightarrow> if x \<in> set cs then [(xs, snd st)] else [])"
| "rmatch Eps st = [st]"
| "rmatch (Cat r1 r2) st = concat (map (rmatch r2) (rmatch r1 st))"
| "rmatch (Alt r1 r2) st = rmatch r1 st @ rmatch r2 st"
| "rmatch (Star r) st = star_iter (rmatch r) (length (fst st)) st"
| "rmatch (Grp n r) st =
     map (\<lambda>st'. (fst st', (snd st')(n \<mapsto> take (length (fst st) - length (fst st')) (fst st))))
         (rmatch r st)"

definition Opt :: "regex \<Rightarrow> regex" where
  "Opt r = Alt r Eps"

definition Plus :: "regex \<Rightarrow> regex" where
  "Plus r = Cat r (Star r)"

fun Lits :: "string \<Rightarrow> regex" where
  "Lits [] = Eps"
| "Lits [c] = Lit c"
| "Lits (c # cs) = Cat (Lit c) (Lits cs)"

fun Alts :: "regex list \<Rightarrow> regex" where
  "Alts [] = Cls []"
| "Alts [r] = r"
| "Alts (r # rs) = Alt r (Alts rs)"

text \<open>\<^verbatim>\<open>pattern.match(s)\<close>: the first match at the start of \<open>s\<close>, or \<^verbatim>\<open>None\<close>.\<close>

definition re_match :: "regex \<Rightarrow> string \<Rightarrow> mstate option" where
  "re_match r s = (case rmatch r (s, Map.empty) of [] \<Rightarrow> None | st # _ \<Rightarrow> Some st)"

text \<open>\<^verbatim>\<open>m.group(i)\<close>; a group that took no part in the match is \<^verbatim>\<open>None\<close>.\<close>

definition group :: "mstate \<Rightarrow> nat \<Rightarrow> string option" where
  "group st i = snd st i"

text \<open>
  \<^verbatim>\<open>re.split(pattern, s)\<close> of Python 2.7 for a pattern without groups. The loop of
  \<^verbatim>\<open>pattern_split\<close> in \<^verbatim>\<open>_sre.c\<close> searches for the next match; an empty match
  never splits (the search moves on by one character), a non-empty match closes the
  current piece. \<open>seg\<close> is the piece collected since the last split.
\<close>

function re_split_loop :: "regex \<Rightarrow> string \<Rightarrow> string \<Rightarrow> string list" where
  "re_split_loop r seg s =
     (case re_match r s of
        Some (s', g) \<Rightarrow>
          if length s' < length s then seg # re_split_loop r [] s'
          else (case s of [] \<Rightarrow> [seg] | c # cs \<Rightarrow> re_split_loop r (seg @ [c]) cs)
      | None \<Rightarrow> (case s of [] \<Rightarrow> [seg] | c # cs \<Rightarrow> re_split_loop r (seg @ [c]) cs))"
  by pat_completeness auto
termination
  by (relation "measure (\<lambda>(r, seg, s). length s)") auto

declare re_split_loop.simps [simp del]

definition re_split :: "regex \<Rightarrow> string \<Rightarrow> string list" where
  "re_split r s = re_split_loop r [] s"

subsection \<open>Numbers as text\<close>

definition digit_char :: "nat \<Rightarrow> char" where
  "digit_char d = ''0123456789'' ! (d mod 10)"

fun digits_of :: "nat \<Rightarrow> string" where
  "digits_of n = (if n < 10 then [digit_char n] else digits_of (n div 10) @ [digit_char (n mod 10)])"

declare digits_of.simps [simp del]

text \<open>\<^verbatim>\<open>str(i)\<close> of an int.\<close>

definition int_str :: "int \<Rightarrow> string" where
  "int_str i = (if i < 0 then CHR ''-'' # digits_of (nat (- i)) else digits_of (nat i))"

text \<open>
  The text that \<^verbatim>\<open>float(s)\<close> accepts once the white space around it is gone
  (\<^verbatim>\<open>PyFloat_FromString\<close> and \<^verbatim>\<open>_Py_dg_strtod\<close>): a sign, then digits with at
  most one point and at least one digit, then an optional exponent; or a sign and one of
  \<^verbatim>\<open>inf\<close>, \<^verbatim>\<open>infinity\<close>, \<^verbatim>\<open>nan\<close> in any case.
\<close>

definition exponent_ok :: "string \<Rightarrow> bool" where
  "exponent_ok r =
     (case r of
        [] \<Rightarrow> True
      | e # r' \<Rightarrow> (e = CHR ''e'' \<or> e = CHR ''E'') \<and>
                 (let d = drop_sign r' in d \<noteq> [] \<and> list_all is_digit d))"

definition decimal_literal :: "string \<Rightarrow> bool" where
  "decimal_literal t =
     (let ip = takeWhile is_digit t; r1 = dropWhile is_digit t in
      case r1 of
        [] \<Rightarrow> ip \<noteq> []
      | c # r2 \<Rightarrow>
          if c = CHR ''.''
          then (ip \<noteq> [] \<or> takeWhile is_digit r2 \<noteq> []) \<and> exponent_ok (dropWhile is_digit r2)
          else ip \<noteq> [] \<and> exponent_ok r1)"

definition float_literal :: "string \<Rightarrow> bool" where
  "float_literal s =
     (let t = drop_sign s in
      decimal_literal t \<or> map lower_char t \<in> set [''inf'', ''infinity'', ''nan''])"

text \<open>
  The text that \<^verbatim>\<open>int(s)\<close> accepts in base 10 (\<^verbatim>\<open>PyInt_FromString\<close> over
  \<^verbatim>\<open>PyOS_strtol\<close>): white space, a sign, white space, digits, white space.
\<close>

definition int_literal :: "string \<Rightarrow> bool" where
  "int_literal s =
     (let t = dropWhile py_isspace (drop_sign (py_strip s)) in t \<noteq> [] \<and> list_all is_digit t)"

fun digits_value :: "nat \<Rightarrow> string \<Rightarrow> nat" where
  "digits_value acc [] = acc"
| "digits_value acc (c # cs) =
     digits_value (10 * acc + (case map_of (zip ''0123456789'' [0 ..< 10]) c of
                                 Some d \<Rightarrow> d | None \<Rightarrow> 0)) cs"

definition int_of_literal :: "string \<Rightarrow> int" where
  "int_of_literal s =
     (let t = py_strip s; v = int (digits_value 0 (dropWhile py_isspace (drop_sign t))) in
      if t \<noteq> [] \<and> hd t = CHR ''-'' then - v else v)"

text \<open>
  \<^verbatim>\<open>float(value)\<close>. Its only caller throws the number away, so the model keeps the
  outcome alone: the exception raised, or \<open>Inr ()\<close>. A long that rounds to
  \<open>2 ^ 1024\<close> or more is too large for a double.
\<close>

definition long_fits_double :: "int \<Rightarrow> bool" where
  "long_fits_double i \<longleftrightarrow> \<bar>i\<bar> < 2 ^ 1024 - 2 ^ 970"

fun py_float :: "pyval \<Rightarrow> pyerr + unit" where
  "py_float (PBool b) = Inr ()"
| "py_float (PInt i) = Inr ()"
| "py_float (PLong i) = (if long_fits_double i then Inr () else Inl OverflowError)"
| "py_float (PFloat f) = Inr ()"
| "py_float (PStr s) = (if float_literal (py_strip s) then Inr () else Inl ValueError)"
| "py_float v = Inl TypeError"

text \<open>\<^verbatim>\<open>int(value)\<close>: a float is cut towards zero, an infinity or a NaN raises.\<close>

definition float_trunc :: "bool \<Rightarrow> nat \<Rightarrow> int \<Rightarrow> int" where
  "float_trunc sg m e =
     (let a = (if 0 \<le> e then m * 2 ^ nat e else m div 2 ^ nat (- e)) in
      if sg then - int a else int a)"

fun py_int :: "pyval \<Rightarrow> pyerr + int" where
  "py_int (PBool b) = Inr (if b then 1 else 0)"
| "py_int (PInt i) = Inr i"
| "py_int (PLong i) = Inr i"
| "py_int (PFloat (Finite sg m e)) = Inr (float_trunc sg m e)"
| "py_int (PFloat (Inf sg)) = Inl OverflowError"
| "py_int (PFloat NaN) = Inl ValueError"
| "py_int (PStr s) = (if int_literal s then Inr (int_of_literal s) else Inl ValueError)"
| "py_int v = Inl TypeError"

subsection \<open>Printing floats\<close>

text \<open>
  \<^verbatim>\<open>str(f)\<close> is \<^verbatim>\<open>format_float_short\<close> of \<^verbatim>\<open>pystrtod.c\<close> with format
  \<^verbatim>\<open>'g'\<close>, precision 12 and the flag that adds \<^verbatim>\<open>.0\<close>; \<^verbatim>\<open>repr(f)\<close> is the
  same with format \<^verbatim>\<open>'r'\<close>, the shortest digits that read back as the same double.
  The value printed is the fraction \<open>num / den\<close>.
\<close>

function ndigits :: "nat \<Rightarrow> nat \<Rightarrow> nat" where
  "ndigits b n = (if b < 2 \<or> n < b then 1 else Suc (ndigits b (n div b)))"
  by pat_completeness auto
termination
  by (relation "measure (\<lambda>(b, n). n)") auto

function lead :: "nat \<Rightarrow> nat \<Rightarrow> nat \<Rightarrow> nat" where
  "lead b num den = (if b < 2 \<or> num = 0 \<or> den \<le> num then 0 else Suc (lead b (num * b) den))"
  by pat_completeness auto
termination
proof (relation "measure (\<lambda>(b, num, den). den - num)", goal_cases)
  case 1
  show ?case by simp
next
  case (2 b num den)
  then have "num * 1 < num * b" and "num < den"
    by (simp_all only: mult_less_cancel1, simp_all)
  then show ?case
    by (simp add: diff_less_mono2)
qed

declare ndigits.simps [simp del] lead.simps [simp del]

text \<open>The floor of the logarithm of \<open>num / den\<close> to base \<open>b\<close>.\<close>

definition ilog :: "nat \<Rightarrow> nat \<Rightarrow> nat \<Rightarrow> int" where
  "ilog b num den =
     (if den \<le> num then int (ndigits b (num div den)) - 1 else - int (lead b num den))"

definition round_half_even :: "nat \<Rightarrow> nat \<Rightarrow> nat" where
  "round_half_even num den =
     (let q = num div den; r = num mod den in
      if 2 * r < den then q
      else if den < 2 * r then q + 1
      else if even q then q else q + 1)"

text \<open>\<open>num / den\<close> times \<open>b ^ k\<close>, as a fraction again.\<close>

definition scale :: "nat \<Rightarrow> nat \<Rightarrow> nat \<Rightarrow> int \<Rightarrow> nat \<times> nat" where
  "scale b num den k = (if 0 \<le> k then (num * b ^ nat k, den) else (num, den * b ^ nat (- k)))"

definition strip_zeros :: "string \<Rightarrow> string" where
  "strip_zeros ds = (case rev (dropWhile (\<lambda>c. c = CHR ''0'') (rev ds)) of [] \<Rightarrow> ''0'' | xs \<Rightarrow> xs)"

text \<open>
  The digits and the position of the decimal point (\<^verbatim>\<open>decpt\<close>) for a value rounded
  to \<open>p\<close> significant digits, as \<^verbatim>\<open>_Py_dg_dtoa\<close> returns them in mode 2.
\<close>

definition dtoa_fixed :: "nat \<Rightarrow> nat \<Rightarrow> nat \<Rightarrow> string \<times> int" where
  "dtoa_fixed p num den =
     (if num = 0 then (''0'', 1)
      else
        let decpt = ilog 10 num den + 1;
            (n, d) = scale 10 num den (int p - decpt);
            q = round_half_even n d
        in if q = 10 ^ p then (''1'', decpt + 1) else (strip_zeros (digits_of q), decpt))"

text \<open>
  The double nearest to \<open>num / den\<close> (53 bits, exponents from \<open>-1074\<close>, ties to
  even), as a fraction; \<open>None\<close> when the value is too large for a double.
\<close>

definition to_double :: "nat \<Rightarrow> nat \<Rightarrow> (nat \<times> nat) option" where
  "to_double num den =
     (if num = 0 then Some (0, 1)
      else
        let e = max (ilog 2 num den - 52) (- 1074);
            (n, d) = scale 2 num den (- e);
            (rn, rd) = scale 2 (round_half_even n d) 1 e
        in if 2 ^ 1024 * rd \<le> rn then None else Some (rn, rd))"

definition reads_back :: "nat \<Rightarrow> nat \<Rightarrow> int \<Rightarrow> nat \<Rightarrow> bool" where
  "reads_back num den k c =
     (let (cn, cd) = scale 10 c 1 k in
      case to_double cn cd of None \<Rightarrow> False | Some (rn, rd) \<Rightarrow> rn * den = num * rd)"

text \<open>
  The candidates with \<open>n\<close> digits that read back as \<open>num / den\<close>, the nearer one
  first: the two neighbours of the value on the grid of \<open>n\<close>-digit decimals.
\<close>

definition candidates :: "nat \<Rightarrow> nat \<Rightarrow> int \<Rightarrow> nat \<Rightarrow> nat list" where
  "candidates num den decpt n =
     (let (sn, sd) = scale 10 num den (int n - decpt);
          lo = sn div sd; r = sn mod sd;
          near = (if 2 * r < sd \<or> (2 * r = sd \<and> even lo) then [lo, lo + 1] else [lo + 1, lo])
      in filter (reads_back num den (decpt - int n)) near)"

text \<open>Mode 0 of \<^verbatim>\<open>_Py_dg_dtoa\<close>: the shortest digits that read back as the same double.\<close>

definition dtoa_shortest :: "nat \<Rightarrow> nat \<Rightarrow> string \<times> int" where
  "dtoa_shortest num den =
     (if num = 0 then (''0'', 1)
      else
        let decpt = ilog 10 num den + 1 in
        case List.find (\<lambda>n. candidates num den decpt n \<noteq> []) [1 ..< 18] of
          None \<Rightarrow> dtoa_fixed 17 num den
        | Some n \<Rightarrow>
            (case candidates num den decpt n of
               [] \<Rightarrow> dtoa_fixed 17 num den
             | c # _ \<Rightarrow> if c = 10 ^ n then (''1'', decpt + 1)
                        else (strip_zeros (digits_of c), decpt)))"

definition exp_str :: "int \<Rightarrow> string" where
  "exp_str x =
     (if x < 0 then ''-'' else ''+'') @
     (let a = digits_of (nat \<bar>x\<bar>) in if length a < 2 then CHR ''0'' # a else a)"

text \<open>
  The layout of \<^verbatim>\<open>format_float_short\<close> for digits \<open>ds\<close> with the point after
  \<open>decpt\<close> of them: an exponent when \<open>decpt \<le> -4\<close> or \<open>decpt > hi\<close>, else plain
  digits with a point, padded with zeros, \<^verbatim>\<open>.0\<close> added to a whole number.
\<close>

definition format_short :: "int \<Rightarrow> string \<Rightarrow> int \<Rightarrow> string" where
  "format_short hi ds decpt =
     (if decpt \<le> - 4 \<or> hi < decpt then
        (case ds of
           [] \<Rightarrow> []
         | d # rest \<Rightarrow> d # (if rest = [] then [] else CHR ''.'' # rest)) @
        CHR ''e'' # exp_str (decpt - 1)
      else if decpt \<le> 0 then ''0.'' @ replicate (nat (- decpt)) (CHR ''0'') @ ds
      else if nat decpt < length ds then take (nat decpt) ds @ CHR ''.'' # drop (nat decpt) ds
      else ds @ replicate (nat decpt - length ds) (CHR ''0'') @ ''.0'')"

fun float_str :: "pyfloat \<Rightarrow> string" where
  "float_str NaN = ''nan''"
| "float_str (Inf sg) = (if sg then ''-inf'' else ''inf'')"
| "float_str (Finite sg m e) =
     (if sg then ''-'' else []) @
     (let (num, den) = scale 2 m 1 e; (ds, decpt) = dtoa_fixed 12 num den
      in format_short 11 ds decpt)"

fun float_repr :: "pyfloat \<Rightarrow> string" where
  "float_repr NaN = ''nan''"
| "float_repr (Inf sg) = (if sg then ''-inf'' else ''inf'')"
| "float_repr (Finite sg m e) =
     (if sg then ''-'' else []) @
     (let (num, den) = scale 2 m 1 e; (ds, decpt) = dtoa_shortest num den
      in format_short 16 ds decpt)"

subsection \<open>\<^verbatim>\<open>str\<close> and \<^verbatim>\<open>repr\<close>\<close>

definition hex_char :: "nat \<Rightarrow> char" where
  "hex_char d = ''0123456789abcdef'' ! (d mod 16)"

definition repr_char :: "char \<Rightarrow> char \<Rightarrow> string" where
  "repr_char quote c =
     (if c = quote \<or> c = CHR 0x5C then [CHR 0x5C, c]
      else if c = CHR 0x09 then [CHR 0x5C, CHR ''t'']
      else if c = CHR 0x0A then [CHR 0x5C, CHR ''n'']
      else if c = CHR 0x0D then [CHR 0x5C, CHR ''r'']
      else if (of_char c :: nat) < 32 \<or> 127 \<le> (of_char c :: nat)
        then [CHR 0x5C, CHR ''x'', hex_char (of_char c div 16), hex_char (of_char c mod 16)]
      else [c])"

text \<open>\<^verbatim>\<open>repr(s)\<close> of a byte string: double quotes only when they save an escape.\<close>

definition str_repr :: "string \<Rightarrow> string" where
  "str_repr s =
     (let quote = (if CHR 0x27 \<in> set s \<and> CHR 0x22 \<notin> set s then CHR 0x22 else CHR 0x27)
      in quote # concat (map (repr_char quote) s) @ [quote])"

fun join :: "string \<Rightarrow> string list \<Rightarrow> string" where
  "join sep [] = []"
| "join sep [x] = x"
| "join sep (x # xs) = x @ sep @ join sep xs"

fun py_repr :: "pyval \<Rightarrow> string" where
  "py_repr PNone = ''None''"
| "py_repr (PBool b) = (if b then ''True'' else ''False'')"
| "py_repr (PInt i) = int_str i"
| "py_repr (PLong i) = int_str i @ ''L''"
| "py_repr (PFloat f) = float_repr f"
| "py_repr (PStr s) = str_repr s"
| "py_repr (PTuple xs) =
     ''('' @ join '', '' (map py_repr xs) @ (if length xs = 1 then '',)'' else '')'')"
| "py_repr (PList xs) = ''['' @ join '', '' (map py_repr xs) @ '']''"

fun py_str :: "pyval \<Rightarrow> string" where
  "py_str (PStr s) = s"
| "py_str (PFloat f) = float_str f"
| "py_str (PLong i) = int_str i"
| "py_str v = py_repr v"

subsection \<open>The patterns\<close>

text \<open>The two patterns compiled in the checker's own file.\<close>

definition SHAPE_PATTERN :: regex where
  \<comment> \<open>\<^verbatim>\<open>rect\((.*),(.*),(.*),(.*)\)\<close>\<close>
  "SHAPE_PATTERN =
     Cat (Lits ''rect('')
    (Cat (Grp 1 (Star Dot)) (Cat (Lit (CHR '',''))
    (Cat (Grp 2 (Star Dot)) (Cat (Lit (CHR '',''))
    (Cat (Grp 3 (Star Dot)) (Cat (Lit (CHR '',''))
    (Cat (Grp 4 (Star Dot)) (Lit (CHR '')'')))))))))"

definition FUNCIRI_PATTERN :: regex where
  \<comment> \<open>\<^verbatim>\<open>url\((.*)\)\<close>\<close>
  "FUNCIRI_PATTERN = Cat (Lits ''url('') (Cat (Grp 1 (Star Dot)) (Lit (CHR '')'')))"

definition SEPARATOR :: regex where
  \<comment> \<open>\<^verbatim>\<open>' *,? *'\<close>, the pattern given to \<^verbatim>\<open>re.split\<close>\<close>
  "SEPARATOR =
     Cat (Star (Lit (CHR '' ''))) (Cat (Opt (Lit (CHR '',''))) (Star (Lit (CHR '' ''))))"

text \<open>
  Modelled from the spec: the module \<^verbatim>\<open>pattern\<close> that the checker imports
  (\<^verbatim>\<open>pattern.length\<close>, \<^verbatim>\<open>pattern.angle\<close>, \<^verbatim>\<open>pattern.frequency\<close>,
  \<^verbatim>\<open>pattern.time\<close>, \<^verbatim>\<open>pattern.percentage\<close>) is not among the sources. The
  spec gives each as a number followed by an optional unit, matched "at the regex
  level", with \<^verbatim>\<open>10xyz\<close> a length: the match is at the start of the text and does
  not have to reach its end. \<^verbatim>\<open>is_length\<close> unpacks three groups, the number, a
  group inside it and the unit; so a number is
  \<^verbatim>\<open>([-+]?[0-9]*\.?[0-9]+([eE][-+]?[0-9]+)?)\<close>, group 2 its exponent.
\<close>

definition digit :: regex where
  "digit = Cls ''0123456789''"

definition number_re :: regex where
  "number_re =
     Cat (Opt (Cls ''-+''))
    (Cat (Star digit)
    (Cat (Opt (Lit (CHR ''.'')))
    (Cat (Plus digit)
         (Opt (Grp 2 (Cat (Cls ''eE'') (Cat (Opt (Cls ''-+'')) (Plus digit))))))))"

definition with_unit :: "string list \<Rightarrow> regex" where
  "with_unit units = Cat (Grp 1 number_re) (Opt (Grp 3 (Alts (map Lits units))))"

definition pattern_length :: regex where
  "pattern_length = with_unit [''em'', ''ex'', ''px'', ''in'', ''cm'', ''mm'', ''pt'', ''pc'', ''%'']"

definition pattern_angle :: regex where
  "pattern_angle = with_unit [''deg'', ''grad'', ''rad'']"

definition pattern_frequency :: regex where
  "pattern_frequency = with_unit [''Hz'', ''kHz'']"

definition pattern_time :: regex where
  "pattern_time = with_unit [''ms'', ''s'']"

definition pattern_percentage :: regex where
  "pattern_percentage = Cat (Grp 1 number_re) (Lit (CHR ''%''))"

subsection \<open>The predicates of \<^verbatim>\<open>Full11TypeChecker\<close>\<close>

definition INVALID_NAME_CHARS :: "char set" where
  "INVALID_NAME_CHARS = set [CHR '' '', CHR 0x09, CHR 0x0D, CHR 0x0A, CHR '','', CHR ''('', CHR '')'']"

text \<open>The bare \<^verbatim>\<open>except:\<close> turns every exception of the conversion into \<^verbatim>\<open>False\<close>.\<close>

definition is_number :: "pyval \<Rightarrow> bool" where
  "is_number v = (case py_float v of Inr number \<Rightarrow> True | Inl e \<Rightarrow> False)"

definition is_integer :: "pyval \<Rightarrow> bool" where
  "is_integer v = (case py_int v of Inr number \<Rightarrow> True | Inl e \<Rightarrow> False)"

definition is_anything :: "pyval \<Rightarrow> bool" where
  "is_anything v = True"

text \<open>
  The predicates for a number with a unit try \<^verbatim>\<open>is_number\<close> first and the pattern
  only on a string; \<open>pat\<close> is \<^verbatim>\<open>pattern.angle\<close> and so on.
\<close>

definition number_or_pattern :: "regex \<Rightarrow> pyval \<Rightarrow> bool" where
  "number_or_pattern pat v =
     (if is_number v then True
      else case v of
             PStr s \<Rightarrow> re_match pat (py_strip s) \<noteq> None
           | _ \<Rightarrow> False)"

definition is_angle :: "pyval \<Rightarrow> bool" where
  "is_angle = number_or_pattern pattern_angle"

definition is_frequency :: "pyval \<Rightarrow> bool" where
  "is_frequency = number_or_pattern pattern_frequency"

definition is_percentage :: "pyval \<Rightarrow> bool" where
  "is_percentage = number_or_pattern pattern_percentage"

definition is_time :: "pyval \<Rightarrow> bool" where
  "is_time = number_or_pattern pattern_time"

text \<open>\<^verbatim>\<open>m.groups()\<close> for a pattern with \<open>n\<close> groups, as Python values.\<close>

definition groups :: "mstate \<Rightarrow> nat \<Rightarrow> pyval list" where
  "groups m n = map (\<lambda>i. case group m i of Some t \<Rightarrow> PStr t | None \<Rightarrow> PNone) [1 ..< Suc n]"

fun is_length :: "pyval \<Rightarrow> bool" where
  "is_length PNone = False"
| "is_length (PBool b) = is_number (PBool b)"
| "is_length (PInt i) = is_number (PInt i)"
| "is_length (PFloat f) = is_number (PFloat f)"
| "is_length (PStr s) =
     (case re_match pattern_length (py_strip s) of
        Some result \<Rightarrow> is_number (hd (groups result 3))
      | None \<Rightarrow> False)"
| "is_length v = False"

definition is_name :: "pyval \<Rightarrow> bool" where
  "is_name v = (if INVALID_NAME_CHARS \<inter> set (py_str v) \<noteq> {} then False else True)"

text \<open>
  \<^verbatim>\<open>n1, n2 = value\<close>: a sequence of another length raises \<^verbatim>\<open>ValueError\<close>, a value
  that cannot be iterated \<^verbatim>\<open>TypeError\<close>.
\<close>

fun unpack2 :: "pyval \<Rightarrow> pyerr + pyval \<times> pyval" where
  "unpack2 (PTuple xs) = (case xs of [n1, n2] \<Rightarrow> Inr (n1, n2) | _ \<Rightarrow> Inl ValueError)"
| "unpack2 (PList xs) = (case xs of [n1, n2] \<Rightarrow> Inr (n1, n2) | _ \<Rightarrow> Inl ValueError)"
| "unpack2 (PStr s) = (case s of [c1, c2] \<Rightarrow> Inr (PStr [c1], PStr [c2]) | _ \<Rightarrow> Inl ValueError)"
| "unpack2 v = Inl TypeError"

fun is_number_optional_number :: "pyval \<Rightarrow> bool" where
  "is_number_optional_number (PStr s) =
     (let values = re_split SEPARATOR (py_strip s) in
      if 0 < length values \<and> length values < 3
      then list_all (\<lambda>v. is_number (PStr v)) values
      else False)"
| "is_number_optional_number v =
     (case unpack2 v of
        Inr (n1, n2) \<Rightarrow> if is_number n1 \<and> is_number n2 then True else False
      | Inl TypeError \<Rightarrow> is_number v
      | Inl e \<Rightarrow> False)"

text \<open>
  \<^verbatim>\<open>value.strip()\<close> is called on whatever comes: a value that is no string has no
  such attribute.
\<close>

fun strip_of :: "pyval \<Rightarrow> pyerr + string" where
  "strip_of (PStr s) = Inr (py_strip s)"
| "strip_of v = Inl AttributeError"

definition is_FuncIRI :: "pyval \<Rightarrow> pyerr + bool" where
  "is_FuncIRI v =
     (case strip_of v of
        Inl e \<Rightarrow> Inl e
      | Inr s \<Rightarrow>
          (case re_match FUNCIRI_PATTERN s of
             Some res \<Rightarrow> Inr (is_anything (hd (groups res 1)))
           | None \<Rightarrow> Inr False))"

definition is_shape :: "pyval \<Rightarrow> pyerr + bool" where
  "is_shape v =
     (case strip_of v of
        Inl e \<Rightarrow> Inl e
      | Inr s \<Rightarrow>
          (case re_match SHAPE_PATTERN s of
             Some res \<Rightarrow> Inr (list_all is_length (groups res 4))
           | None \<Rightarrow> Inr False))"

subsection \<open>Lists and the dispatcher\<close>

text \<open>
  \<^verbatim>\<open>iterflatlist\<close>: tuples and lists are opened, everything else (a Python 2 string
  has no \<^verbatim>\<open>__iter__\<close>) is an element.
\<close>

fun iterflatlist :: "pyval list \<Rightarrow> pyval list" where
  "iterflatlist [] = []"
| "iterflatlist (PTuple xs # rest) = iterflatlist xs @ iterflatlist rest"
| "iterflatlist (PList xs # rest) = iterflatlist xs @ iterflatlist rest"
| "iterflatlist (element # rest) = element # iterflatlist rest"

text \<open>
  The local function \<^verbatim>\<open>split\<close> of \<^verbatim>\<open>is_list_of_T\<close>, together with the start of
  the \<^verbatim>\<open>for\<close> loop over its result: \<^verbatim>\<open>None\<close> and a long fail both
  \<^verbatim>\<open>isinstance\<close> tests, are returned as they are and cannot be iterated.
\<close>

fun split :: "pyval \<Rightarrow> pyerr + pyval list" where
  "split (PBool b) = Inr [PBool b]"
| "split (PInt i) = Inr [PInt i]"
| "split (PLong i) = Inl TypeError"
| "split (PFloat f) = Inr [PFloat f]"
| "split (PStr s) =
     Inr (iterflatlist (map (\<lambda>v. PList (map PStr (py_split (CHR '','') v))) (py_split (CHR '' '') s)))"
| "split (PTuple xs) = Inr xs"
| "split (PList xs) = Inr xs"
| "split PNone = Inl TypeError"

text \<open>The loop: the first element that fails ends it, an exception of the checker goes up.\<close>

fun check_each :: "(pyval \<Rightarrow> pyerr + bool) \<Rightarrow> pyval list \<Rightarrow> pyerr + bool" where
  "check_each checker [] = Inr True"
| "check_each checker (v # vs) =
     (case checker v of
        Inl e \<Rightarrow> Inl e
      | Inr ok \<Rightarrow> if \<not> ok then Inr False else check_each checker vs)"

definition list_of :: "(pyval \<Rightarrow> pyerr + bool) \<Rightarrow> pyval \<Rightarrow> pyerr + bool" where
  "list_of checker v = (case split v of Inl e \<Rightarrow> Inl e | Inr vs \<Rightarrow> check_each checker vs)"

definition pure :: "(pyval \<Rightarrow> bool) \<Rightarrow> pyval \<Rightarrow> pyerr + bool" where
  "pure p v = Inr (p v)"

text \<open>
  The attributes of the class whose names start with \<^verbatim>\<open>is_\<close>. The method
  \<^verbatim>\<open>is_list_of_T\<close> is an attribute too; reached by name it runs with its default
  \<^verbatim>\<open>t='string'\<close>, whose checker is \<^verbatim>\<open>is_string = is_anything\<close>.
\<close>

definition methods :: "(string \<times> (pyval \<Rightarrow> pyerr + bool)) list" where
  "methods =
     [(''is_angle'', pure is_angle),
      (''is_anything'', pure is_anything),
      (''is_string'', pure is_anything),
      (''is_color'', pure (\<lambda>v. True)),
      (''is_frequency'', pure is_frequency),
      (''is_FuncIRI'', is_FuncIRI),
      (''is_icccolor'', pure (\<lambda>v. True)),
      (''is_integer'', pure is_integer),
      (''is_IRI'', pure is_anything),
      (''is_length'', pure is_length),
      (''is_coordinate'', pure is_length),
      (''is_list_of_T'', list_of (pure is_anything)),
      (''is_semicolon_list'', pure (\<lambda>v. True)),
      (''is_name'', pure is_name),
      (''is_number'', pure is_number),
      (''is_number_optional_number'', pure is_number_optional_number),
      (''is_paint'', pure (\<lambda>v. True)),
      (''is_percentage'', pure is_percentage),
      (''is_time'', pure is_time),
      (''is_transform_list'', pure (\<lambda>v. True)),
      (''is_XML_Name'', pure (\<lambda>v. True)),
      (''is_shape'', is_shape)]"

definition replace :: "char \<Rightarrow> char \<Rightarrow> string \<Rightarrow> string" where
  "replace a b s = map (\<lambda>c. if c = a then b else c) s"

definition get_func_by_name :: "string \<Rightarrow> pyval \<Rightarrow> pyerr + bool" where
  "get_func_by_name funcname =
     (case map_of methods (''is_'' @ replace (CHR ''-'') (CHR ''_'') funcname) of
        Some f \<Rightarrow> f
      | None \<Rightarrow> pure is_anything)"

definition is_list_of_T :: "pyval \<Rightarrow> string \<Rightarrow> pyerr + bool" where
  "is_list_of_T v t = list_of (get_func_by_name t) v"

definition check :: "string \<Rightarrow> pyval \<Rightarrow> pyerr + bool" where
  "check typename v =
     (if take 8 typename = ''list-of-'' then is_list_of_T v (drop 8 typename)
      else get_func_by_name typename v)"

subsection \<open>The language of a pattern\<close>

text \<open>
  What a pattern can match, without the order of the attempts and without the groups:
  the yardstick for the matcher.
\<close>

definition star :: "string set \<Rightarrow> string set" where
  "star L = {concat ws |ws. set ws \<subseteq> L}"

primrec lang :: "regex \<Rightarrow> string set" where
  "lang (Lit c) = {[c]}"
| "lang Dot = {[x] |x. x \<noteq> CHR 0x0A}"
| "lang (Cls cs) = {[x] |x. x \<in> set cs}"
| "lang Eps = {[]}"
| "lang (Cat r1 r2) = {u @ v |u v. u \<in> lang r1 \<and> v \<in> lang r2}"
| "lang (Alt r1 r2) = lang r1 \<union> lang r2"
| "lang (Star r) = star (lang r)"
| "lang (Grp n r) = lang r"

primrec grps :: "regex \<Rightarrow> nat set" where
  "grps (Lit c) = {}"
| "grps Dot = {}"
| "grps (Cls cs) = {}"
| "grps Eps = {}"
| "grps (Cat r1 r2) = grps r1 \<union> grps r2"
| "grps (Alt r1 r2) = grps r1 \<union> grps r2"
| "grps (Star r) = grps r"
| "grps (Grp n r) = insert n (grps r)"

subsection \<open>The text of a number\<close>

text \<open>
  The words of \<open>number_re\<close>, spelled out: a sign, digits, a point, at least one more
  digit, an exponent; every part but the digits before the exponent may be missing.
\<close>

definition sign_text :: "string \<Rightarrow> bool" where
  "sign_text sg \<longleftrightarrow> sg = [] \<or> sg = ''-'' \<or> sg = ''+''"

definition exponent_text :: "string \<Rightarrow> bool" where
  "exponent_text ex \<longleftrightarrow>
     ex = [] \<or>
     (\<exists>e sg ds. ex = e # sg @ ds \<and> (e = CHR ''e'' \<or> e = CHR ''E'') \<and> sign_text sg \<and>
        ds \<noteq> [] \<and> list_all is_digit ds)"

definition number_text :: "string \<Rightarrow> bool" where
  "number_text w \<longleftrightarrow>
     (\<exists>sg ds1 pt ds2 ex. w = sg @ ds1 @ pt @ ds2 @ ex \<and> sign_text sg \<and> list_all is_digit ds1 \<and>
        (pt = [] \<or> pt = ''.'') \<and> ds2 \<noteq> [] \<and> list_all is_digit ds2 \<and> exponent_text ex)"



subsection \<open>One or two numbers, by the words of the spec\<close>

text \<open>
  A token has neither a space nor a comma; a separator is a non-empty word of the
  pattern \<^verbatim>\<open>' *,? *'\<close>: spaces, at most one comma, spaces.
\<close>

definition sep_free :: "string \<Rightarrow> bool" where
  "sep_free x \<longleftrightarrow> CHR '' '' \<notin> set x \<and> CHR '','' \<notin> set x"

definition separator :: "string \<Rightarrow> bool" where
  "separator sep \<longleftrightarrow> sep \<noteq> [] \<and> sep \<in> lang SEPARATOR"

text \<open>
  The rule of the spec for \<^verbatim>\<open>number-optional-number\<close>: one number, or two numbers
  with a separator between them, in a string (stripped); a sequence of two numbers;
  or a single number. A number is what \<^verbatim>\<open>is_number\<close> accepts.
\<close>

definition spec_number_optional_number :: "pyval \<Rightarrow> bool" where
  "spec_number_optional_number v =
     (case v of
        PStr s \<Rightarrow>
          (sep_free (py_strip s) \<and> is_number (PStr (py_strip s))) \<or>
          (\<exists>n1 sep n2. py_strip s = n1 @ sep @ n2 \<and> sep_free n1 \<and> separator sep \<and> sep_free n2 \<and>
             is_number (PStr n1) \<and> is_number (PStr n2))
      | PTuple xs \<Rightarrow> (\<exists>n1 n2. xs = [n1, n2] \<and> is_number n1 \<and> is_number n2)
      | PList xs \<Rightarrow> (\<exists>n1 n2. xs = [n1, n2] \<and> is_number n1 \<and> is_number n2)
      | _ \<Rightarrow> is_number v)"

text \<open>What the first match of the separator pattern leaves of a text.\<close>

definition drop_char :: "char \<Rightarrow> string \<Rightarrow> string" where
  "drop_char c s = (case s of [] \<Rightarrow> [] | x # xs \<Rightarrow> if x = c then xs else s)"

definition skip_separator :: "string \<Rightarrow> string" where
  "skip_separator s =
     dropWhile (\<lambda>x. x = CHR '' '') (drop_char (CHR '','') (dropWhile (\<lambda>x. x = CHR '' '') s))"

subsection \<open>Names for the claims\<close>

text \<open>
  The types whose predicate in the class is a plain \<^verbatim>\<open>return True\<close>, and the names
  under which the class has no \<^verbatim>\<open>is_\<close> attribute at all.
\<close>

definition permissive_names :: "string list" where
  "permissive_names = [''paint'', ''color'', ''icccolor'', ''anything'', ''string'', ''IRI'',
     ''transform-list'', ''XML-Name'', ''semicolon-list'']"

definition unregistered :: "string \<Rightarrow> bool" where
  "unregistered typename \<longleftrightarrow>
     ''is_'' @ replace (CHR ''-'') (CHR ''_'') typename \<notin> fst ` set methods"

section \<open>Properties\<close>

subsection \<open>The matcher against the language\<close>

lemma star_Nil: "[] \<in> star L"
proof -
  have "[] = concat ([] :: string list)" "set ([] :: string list) \<subseteq> L"
    by simp_all
  then show ?thesis
    unfolding star_def by blast
qed

lemma star_Cons:
  assumes "u \<in> L" and "v \<in> star L"
  shows "u @ v \<in> star L"
proof -
  from assms(2) obtain ws where ws: "v = concat ws" "set ws \<subseteq> L"
    unfolding star_def by blast
  with assms(1) have "u @ v = concat (u # ws)" "set (u # ws) \<subseteq> L"
    by simp_all
  then show ?thesis
    unfolding star_def by blast
qed

lemma star_iter_self: "st \<in> set (star_iter f n st)"
  by (cases n) simp_all

lemma star_iter_sound:
  assumes f: "\<And>st st'. st' \<in> set (f st) \<Longrightarrow> \<exists>w\<in>L. fst st = w @ fst st'"
  shows "st' \<in> set (star_iter f n st) \<Longrightarrow> \<exists>w\<in>star L. fst st = w @ fst st'"
proof (induction n arbitrary: st)
  case 0
  then show ?case using star_Nil by auto
next
  case (Suc n)
  from Suc.prems consider
    (stop) "st' = st"
    | (step) st1 where "st1 \<in> set (f st)" "st' \<in> set (star_iter f n st1)"
    by (auto split: if_splits)
  then show ?case
  proof cases
    case stop
    then show ?thesis using star_Nil by auto
  next
    case step
    from f [OF step(1)] obtain w1 where w1: "w1 \<in> L" "fst st = w1 @ fst st1"
      by blast
    from Suc.IH [OF step(2)] obtain w2 where w2: "w2 \<in> star L" "fst st1 = w2 @ fst st'"
      by blast
    from w1 w2 have "w1 @ w2 \<in> star L" "fst st = (w1 @ w2) @ fst st'"
      by (simp_all add: star_Cons)
    then show ?thesis by blast
  qed
qed

lemma rmatch_sound:
  "st' \<in> set (rmatch r st) \<Longrightarrow> \<exists>w\<in>lang r. fst st = w @ fst st'"
proof (induction r arbitrary: st st')
  case (Lit c)
  then show ?case by (cases "fst st") (simp_all split: if_splits)
next
  case Dot
  then show ?case by (cases "fst st") (simp_all split: if_splits)
next
  case (Cls cs)
  then show ?case by (cases "fst st") (simp_all split: if_splits)
next
  case Eps
  then show ?case by simp
next
  case (Cat r1 r2)
  from Cat.prems obtain st1 where st1: "st1 \<in> set (rmatch r1 st)" "st' \<in> set (rmatch r2 st1)"
    by auto
  from Cat.IH(1) [OF st1(1)] obtain u where u: "u \<in> lang r1" "fst st = u @ fst st1"
    by blast
  from Cat.IH(2) [OF st1(2)] obtain v where v: "v \<in> lang r2" "fst st1 = v @ fst st'"
    by blast
  from u v have "u @ v \<in> lang (Cat r1 r2)" "fst st = (u @ v) @ fst st'"
    by auto
  then show ?case by blast
next
  case (Alt r1 r2)
  from Alt.prems have "st' \<in> set (rmatch r1 st) \<or> st' \<in> set (rmatch r2 st)"
    by simp
  then show ?case
  proof
    assume "st' \<in> set (rmatch r1 st)"
    from Alt.IH(1) [OF this] show ?thesis by auto
  next
    assume "st' \<in> set (rmatch r2 st)"
    from Alt.IH(2) [OF this] show ?thesis by auto
  qed
next
  case (Star r)
  from Star.prems have "st' \<in> set (star_iter (rmatch r) (length (fst st)) st)"
    by simp
  from star_iter_sound [where f = "rmatch r" and L = "lang r", OF Star.IH this]
  show ?case by simp
next
  case (Grp n r)
  from Grp.prems obtain st1 where st1: "st1 \<in> set (rmatch r st)" "fst st' = fst st1"
    by auto
  from Grp.IH [OF st1(1)] st1(2) show ?case by simp
qed

lemma star_iter_complete:
  assumes f: "\<And>w s g. w \<in> L \<Longrightarrow> \<exists>g'. (s, g') \<in> set (f (w @ s, g))"
  shows "set ws \<subseteq> L \<Longrightarrow> length (concat ws @ s) \<le> n \<Longrightarrow>
         \<exists>g'. (s, g') \<in> set (star_iter f n (concat ws @ s, g))"
proof (induction ws arbitrary: n g)
  case Nil
  then show ?case using star_iter_self [of "(s, g)" f n] by auto
next
  case (Cons u us)
  show ?case
  proof (cases "u = []")
    case True
    with Cons show ?thesis by simp
  next
    case False
    with Cons.prems obtain m where n: "n = Suc m"
      by (cases n) auto
    from Cons.prems have "u \<in> L" by simp
    from f [OF this, of "concat us @ s" g]
    obtain g1 where g1: "(concat us @ s, g1) \<in> set (f (u @ concat us @ s, g))"
      by blast
    from False have lu: "Suc 0 \<le> length u"
      by (cases u) simp_all
    from Cons.prems(2) n have "length u + length (concat us @ s) \<le> Suc m"
      by simp
    with lu have le: "length (concat us @ s) \<le> m"
      by linarith
    from Cons.prems(1) have "set us \<subseteq> L"
      by simp
    from Cons.IH [OF this le, of g1]
    obtain g' where g': "(s, g') \<in> set (star_iter f m (concat us @ s, g1))"
      by blast
    from False have "length (fst (concat us @ s, g1)) < length (fst (u @ concat us @ s, g))"
      by simp
    with g1 g' n show ?thesis
      by (auto intro!: exI [where x = g'] bexI [where x = "(concat us @ s, g1)"])
  qed
qed

lemma rmatch_complete:
  "w \<in> lang r \<Longrightarrow> \<exists>g'. (s, g') \<in> set (rmatch r (w @ s, g))"
proof (induction r arbitrary: w s g)
  case (Lit c)
  then show ?case by simp
next
  case Dot
  then show ?case by auto
next
  case (Cls cs)
  then show ?case by auto
next
  case Eps
  then show ?case by simp
next
  case (Alt r1 r2)
  from Alt.prems have "w \<in> lang r1 \<or> w \<in> lang r2"
    by simp
  then show ?case
  proof
    assume "w \<in> lang r1"
    from Alt.IH(1) [OF this, of s g] show ?thesis by auto
  next
    assume "w \<in> lang r2"
    from Alt.IH(2) [OF this, of s g] show ?thesis by auto
  qed
next
  case (Cat r1 r2)
  from Cat.prems obtain u v where uv: "w = u @ v" "u \<in> lang r1" "v \<in> lang r2"
    by auto
  from Cat.IH(1) [OF uv(2), of "v @ s" g]
  obtain g1 where g1: "(v @ s, g1) \<in> set (rmatch r1 (u @ v @ s, g))"
    by blast
  from Cat.IH(2) [OF uv(3), of s g1]
  obtain g2 where "(s, g2) \<in> set (rmatch r2 (v @ s, g1))"
    by blast
  with g1 uv(1) show ?case by auto
next
  case (Star r)
  from Star.prems obtain ws where ws: "w = concat ws" "set ws \<subseteq> lang r"
    by (auto simp add: star_def)
  from star_iter_complete [where f = "rmatch r" and L = "lang r", OF Star.IH ws(2), of s "length (w @ s)" g] ws(1)
  show ?case by simp
next
  case (Grp n r)
  from Grp.IH [OF Grp.prems [simplified], of s g]
  obtain g1 where "(s, g1) \<in> set (rmatch r (w @ s, g))"
    by blast
  then have "(s, g1(n \<mapsto> w)) \<in> set (rmatch (Grp n r) (w @ s, g))"
    by (force simp add: image_iff)
  then show ?case by blast
qed

lemma star_iter_preserve:
  assumes f: "\<And>st st'. st' \<in> set (f st) \<Longrightarrow> snd st' k = snd st k"
  shows "st' \<in> set (star_iter f n st) \<Longrightarrow> snd st' k = snd st k"
proof (induction n arbitrary: st)
  case 0
  then show ?case by simp
next
  case (Suc n)
  from Suc.prems consider
    (stop) "st' = st"
    | (step) st1 where "st1 \<in> set (f st)" "st' \<in> set (star_iter f n st1)"
    by (auto split: if_splits)
  then show ?case
  proof cases
    case stop
    then show ?thesis by simp
  next
    case step
    from f [OF step(1)] Suc.IH [OF step(2)] show ?thesis by simp
  qed
qed

lemma rmatch_preserve:
  "k \<notin> grps r \<Longrightarrow> st' \<in> set (rmatch r st) \<Longrightarrow> snd st' k = snd st k"
proof (induction r arbitrary: st st')
  case (Lit c)
  then show ?case by (cases "fst st") (auto split: if_splits)
next
  case Dot
  then show ?case by (cases "fst st") (auto split: if_splits)
next
  case (Cls cs)
  then show ?case by (cases "fst st") (auto split: if_splits)
next
  case Eps
  then show ?case by simp
next
  case (Alt r1 r2)
  from Alt.prems have k: "k \<notin> grps r1" "k \<notin> grps r2"
    and "st' \<in> set (rmatch r1 st) \<or> st' \<in> set (rmatch r2 st)"
    by simp_all
  from this(3) show ?case
  proof
    assume "st' \<in> set (rmatch r1 st)"
    from Alt.IH(1) [OF k(1) this] show ?thesis .
  next
    assume "st' \<in> set (rmatch r2 st)"
    from Alt.IH(2) [OF k(2) this] show ?thesis .
  qed
next
  case (Cat r1 r2)
  from Cat.prems obtain st1 where "st1 \<in> set (rmatch r1 st)" "st' \<in> set (rmatch r2 st1)"
    by auto
  with Cat.IH(1) [of st1 st] Cat.IH(2) [of st' st1] Cat.prems(1) show ?case
    by simp
next
  case (Star r)
  from Star.prems have k: "k \<notin> grps r"
    and "st' \<in> set (star_iter (rmatch r) (length (fst st)) st)"
    by simp_all
  from star_iter_preserve [where f = "rmatch r", OF Star.IH [OF k] this(2)]
  show ?case .
next
  case (Grp n r)
  from Grp.prems obtain st1 where "st1 \<in> set (rmatch r st)" "snd st' k = snd st1 k"
    by auto
  with Grp.IH [of st1 st] Grp.prems(1) show ?case by simp
qed

text \<open>A group records the text its pattern consumed.\<close>

lemma rmatch_Grp:
  assumes "st' \<in> set (rmatch (Grp k r) st)"
  shows "\<exists>w\<in>lang r. fst st = w @ fst st' \<and> snd st' k = Some w"
proof -
  from assms obtain st1 where st1: "st1 \<in> set (rmatch r st)" "fst st' = fst st1"
    "snd st' k = Some (take (length (fst st) - length (fst st1)) (fst st))"
    by auto
  from rmatch_sound [OF st1(1)] obtain w where "w \<in> lang r" "fst st = w @ fst st1"
    by blast
  with st1 show ?thesis by auto
qed

lemma re_match_SomeD: "re_match r s = Some st \<Longrightarrow> st \<in> set (rmatch r (s, Map.empty))"
  by (auto simp add: re_match_def split: list.splits)

lemma re_match_None_iff: "re_match r s = None \<longleftrightarrow> rmatch r (s, Map.empty) = []"
  by (auto simp add: re_match_def split: list.splits)

text \<open>\<^verbatim>\<open>pattern.match(s)\<close> finds a match exactly when \<open>s\<close> starts with a word of the language.\<close>

lemma re_match_iff: "re_match r s \<noteq> None \<longleftrightarrow> (\<exists>w\<in>lang r. \<exists>rest. s = w @ rest)"
proof
  assume "re_match r s \<noteq> None"
  then obtain st where "st \<in> set (rmatch r (s, Map.empty))"
    using re_match_SomeD by blast
  from rmatch_sound [OF this] show "\<exists>w\<in>lang r. \<exists>rest. s = w @ rest"
    by auto
next
  assume "\<exists>w\<in>lang r. \<exists>rest. s = w @ rest"
  then obtain w rest where "w \<in> lang r" "s = w @ rest"
    by blast
  with rmatch_complete [of w r rest Map.empty] have "rmatch r (s, Map.empty) \<noteq> []"
    by auto
  then show "re_match r s \<noteq> None"
    by (simp add: re_match_None_iff)
qed

subsection \<open>Numbers: the pattern and \<^verbatim>\<open>float\<close>\<close>

lemma lang_Opt: "lang (Opt r) = insert [] (lang r)"
  by (auto simp add: Opt_def)

lemma lang_Cat_iff: "w \<in> lang (Cat r1 r2) \<longleftrightarrow> (\<exists>u v. w = u @ v \<and> u \<in> lang r1 \<and> v \<in> lang r2)"
  by simp

lemma lang_digit: "w \<in> lang digit \<longleftrightarrow> (\<exists>c. w = [c] \<and> is_digit c)"
  by (simp add: digit_def is_digit_def)

lemma star_digit: "ds \<in> star (lang digit) \<longleftrightarrow> list_all is_digit ds"
proof
  assume "ds \<in> star (lang digit)"
  then obtain ws where ws: "ds = concat ws" "set ws \<subseteq> lang digit"
    unfolding star_def by blast
  from ws(2) have "list_all is_digit (concat ws)"
  proof (induction ws)
    case Nil
    show ?case by simp
  next
    case (Cons x xs)
    from Cons.prems have "x \<in> lang digit" "set xs \<subseteq> lang digit"
      by simp_all
    with Cons.IH lang_digit [of x] show ?case
      by auto
  qed
  with ws(1) show "list_all is_digit ds"
    by simp
next
  assume d: "list_all is_digit ds"
  have c: "ds = concat (map (\<lambda>c. [c]) ds)"
    by (induction ds) simp_all
  from d have "\<forall>c\<in>set ds. [c] \<in> lang digit"
    by (simp add: lang_digit list_all_iff)
  then have "set (map (\<lambda>c. [c]) ds) \<subseteq> lang digit"
    by auto
  with c show "ds \<in> star (lang digit)"
    unfolding star_def by blast
qed

lemma lang_Plus_digit: "ds \<in> lang (Plus digit) \<longleftrightarrow> ds \<noteq> [] \<and> list_all is_digit ds"
proof
  assume "ds \<in> lang (Plus digit)"
  then obtain u v where uv: "ds = u @ v" "u \<in> lang digit" "v \<in> star (lang digit)"
    by (auto simp add: Plus_def)
  from uv(2) obtain c where "u = [c]" "is_digit c"
    using lang_digit by blast
  with uv(1) uv(3) show "ds \<noteq> [] \<and> list_all is_digit ds"
    by (simp add: star_digit)
next
  assume "ds \<noteq> [] \<and> list_all is_digit ds"
  then obtain c v where cv: "ds = [c] @ v" "is_digit c" "list_all is_digit v"
    by (cases ds) auto
  then have "[c] \<in> lang digit" "v \<in> star (lang digit)"
    by (simp_all add: lang_digit star_digit)
  with cv(1) show "ds \<in> lang (Plus digit)"
    unfolding Plus_def lang.simps by blast
qed

lemma lang_sign: "sg \<in> lang (Opt (Cls ''-+'')) \<longleftrightarrow> sign_text sg"
  by (auto simp add: lang_Opt sign_text_def)

lemma lang_point: "pt \<in> lang (Opt (Lit (CHR ''.''))) \<longleftrightarrow> pt = [] \<or> pt = ''.''"
  by (auto simp add: lang_Opt)

lemma lang_exponent:
  "ex \<in> lang (Opt (Grp 2 (Cat (Cls ''eE'') (Cat (Opt (Cls ''-+'')) (Plus digit))))) \<longleftrightarrow>
   exponent_text ex"
proof -
  have "ex \<in> lang (Cat (Cls ''eE'') (Cat (Opt (Cls ''-+'')) (Plus digit))) \<longleftrightarrow>
     (\<exists>e sg ds. ex = e # sg @ ds \<and> (e = CHR ''e'' \<or> e = CHR ''E'') \<and> sign_text sg \<and>
        ds \<noteq> [] \<and> list_all is_digit ds)" (is "?l \<longleftrightarrow> ?r")
  proof
    assume ?l
    then obtain u v where uv: "ex = u @ v" "u \<in> lang (Cls ''eE'')"
      "v \<in> lang (Cat (Opt (Cls ''-+'')) (Plus digit))"
      unfolding lang_Cat_iff by blast
    from uv(3) obtain sg ds where sd: "v = sg @ ds" "sg \<in> lang (Opt (Cls ''-+''))"
      "ds \<in> lang (Plus digit)"
      unfolding lang_Cat_iff by blast
    from uv(2) obtain e where e: "u = [e]" "e = CHR ''e'' \<or> e = CHR ''E''"
      by auto
    from uv(1) sd e show ?r
      by (auto simp add: lang_sign lang_Plus_digit)
  next
    assume ?r
    then obtain e sg ds where r: "ex = [e] @ sg @ ds" "e = CHR ''e'' \<or> e = CHR ''E''"
      "sign_text sg" "ds \<noteq> [] \<and> list_all is_digit ds"
      by auto
    from r(2) have "[e] \<in> lang (Cls ''eE'')"
      by auto
    moreover from r(3) r(4) have "sg @ ds \<in> lang (Cat (Opt (Cls ''-+'')) (Plus digit))"
      unfolding lang_Cat_iff using lang_sign lang_Plus_digit by blast
    ultimately show ?l
      unfolding lang_Cat_iff [of ex] using r(1) by blast
  qed
  then show ?thesis
    by (simp add: lang_Opt exponent_text_def)
qed

lemma lang_number_re: "w \<in> lang number_re \<longleftrightarrow> number_text w"
proof
  assume "w \<in> lang number_re"
  then obtain sg r1 where 1: "w = sg @ r1" "sign_text sg"
    and "r1 \<in> lang (Cat (Star digit) (Cat (Opt (Lit (CHR ''.''))) (Cat (Plus digit)
           (Opt (Grp 2 (Cat (Cls ''eE'') (Cat (Opt (Cls ''-+'')) (Plus digit))))))))"
    unfolding number_re_def lang_Cat_iff [of w] lang_sign by blast
  then obtain ds1 r2 where 2: "r1 = ds1 @ r2" "list_all is_digit ds1"
    and "r2 \<in> lang (Cat (Opt (Lit (CHR ''.''))) (Cat (Plus digit)
           (Opt (Grp 2 (Cat (Cls ''eE'') (Cat (Opt (Cls ''-+'')) (Plus digit)))))))"
    unfolding lang_Cat_iff [of r1] lang.simps(7) star_digit by blast
  then obtain pt r3 where 3: "r2 = pt @ r3" "pt = [] \<or> pt = ''.''"
    and "r3 \<in> lang (Cat (Plus digit)
           (Opt (Grp 2 (Cat (Cls ''eE'') (Cat (Opt (Cls ''-+'')) (Plus digit))))))"
    unfolding lang_Cat_iff [of r2] lang_point by blast
  then obtain ds2 ex where 4: "r3 = ds2 @ ex" "ds2 \<noteq> [] \<and> list_all is_digit ds2"
    "exponent_text ex"
    unfolding lang_Cat_iff [of r3] lang_Plus_digit lang_exponent by blast
  from 1 2 3 4 show "number_text w"
    unfolding number_text_def by blast
next
  assume "number_text w"
  then obtain sg ds1 pt ds2 ex where w: "w = sg @ ds1 @ pt @ ds2 @ ex" "sign_text sg"
    "list_all is_digit ds1" "pt = [] \<or> pt = ''.''" "ds2 \<noteq> [] \<and> list_all is_digit ds2"
    "exponent_text ex"
    unfolding number_text_def by blast
  from w(5) w(6) have "ds2 @ ex \<in> lang (Cat (Plus digit)
           (Opt (Grp 2 (Cat (Cls ''eE'') (Cat (Opt (Cls ''-+'')) (Plus digit))))))"
    unfolding lang_Cat_iff [of "ds2 @ ex"] lang_Plus_digit lang_exponent by blast
  with w(4) have "pt @ ds2 @ ex \<in> lang (Cat (Opt (Lit (CHR ''.''))) (Cat (Plus digit)
           (Opt (Grp 2 (Cat (Cls ''eE'') (Cat (Opt (Cls ''-+'')) (Plus digit)))))))"
    unfolding lang_Cat_iff [of "pt @ ds2 @ ex"] lang_point by blast
  with w(3) have "ds1 @ pt @ ds2 @ ex \<in> lang (Cat (Star digit) (Cat (Opt (Lit (CHR ''.'')))
           (Cat (Plus digit)
           (Opt (Grp 2 (Cat (Cls ''eE'') (Cat (Opt (Cls ''-+'')) (Plus digit))))))))"
    unfolding lang_Cat_iff [of "ds1 @ pt @ ds2 @ ex"] lang.simps(7) star_digit by blast
  with w(1) w(2) show "w \<in> lang number_re"
    unfolding number_re_def lang_Cat_iff [of w] lang_sign by blast
qed

lemma is_digit_chars:
  "is_digit c \<Longrightarrow> c \<noteq> CHR ''+'' \<and> c \<noteq> CHR ''-'' \<and> c \<noteq> CHR ''.'' \<and> c \<noteq> CHR ''e'' \<and>
     c \<noteq> CHR ''E'' \<and> \<not> py_isspace c"
  by (auto simp add: is_digit_def py_isspace_def)

lemma takeWhile_digits:
  assumes "list_all is_digit ds" and "r = [] \<or> \<not> is_digit (hd r)"
  shows "takeWhile is_digit (ds @ r) = ds" and "dropWhile is_digit (ds @ r) = r"
proof -
  from assms(2) have r: "takeWhile is_digit r = []" "dropWhile is_digit r = r"
    by (cases r; simp)+
  from assms(1) have "\<forall>x\<in>set ds. is_digit x"
    by (simp add: list_all_iff)
  then show "takeWhile is_digit (ds @ r) = ds" "dropWhile is_digit (ds @ r) = r"
    using r by simp_all
qed

lemma drop_sign_signed:
  assumes "sign_text sg" and "r \<noteq> []" and "hd r \<noteq> CHR ''+''" and "hd r \<noteq> CHR ''-''"
  shows "drop_sign (sg @ r) = r"
proof -
  from assms(2) obtain c cs where "r = c # cs"
    by (cases r) auto
  with assms show ?thesis
    by (auto simp add: drop_sign_def sign_text_def)
qed

lemma exponent_text_ok:
  assumes "exponent_text ex"
  shows "exponent_ok ex"
proof (cases "ex = []")
  case True
  then show ?thesis by (simp add: exponent_ok_def)
next
  case False
  with assms obtain e sg ds where ex: "ex = e # sg @ ds" "e = CHR ''e'' \<or> e = CHR ''E''"
    "sign_text sg" "ds \<noteq> []" "list_all is_digit ds"
    unfolding exponent_text_def by blast
  from ex(4) ex(5) have "is_digit (hd ds)"
    by (cases ds) simp_all
  then have "hd ds \<noteq> CHR ''+''" "hd ds \<noteq> CHR ''-''"
    using is_digit_chars by blast+
  from drop_sign_signed [OF ex(3) ex(4) this] have "drop_sign (sg @ ds) = ds" .
  with ex show ?thesis
    by (auto simp add: exponent_ok_def)
qed

lemma exponent_text_head:
  assumes "exponent_text ex"
  shows "ex = [] \<or> (\<not> is_digit (hd ex) \<and> hd ex \<noteq> CHR ''.'')"
proof (cases "ex = []")
  case True
  then show ?thesis by simp
next
  case False
  with assms obtain e r where "ex = e # r" "e = CHR ''e'' \<or> e = CHR ''E''"
    unfolding exponent_text_def by blast
  then show ?thesis
    by (auto simp add: is_digit_def)
qed

lemma digits_then_exponent:
  assumes "list_all is_digit ds" and "ds \<noteq> []" and "exponent_text ex"
  shows "takeWhile is_digit (ds @ ex) = ds" and "dropWhile is_digit (ds @ ex) = ex"
  using takeWhile_digits [OF assms(1), of ex] exponent_text_head [OF assms(3)]
  by blast+

text \<open>A number without its sign is what \<^verbatim>\<open>float\<close> reads as a decimal.\<close>

lemma unsigned_number_decimal:
  assumes "list_all is_digit ds1" and "pt = [] \<or> pt = ''.''" and "ds2 \<noteq> []"
    and "list_all is_digit ds2" and "exponent_text ex"
  shows "decimal_literal (ds1 @ pt @ ds2 @ ex)"
proof (cases "pt = []")
  case True
  then have e: "ds1 @ pt @ ds2 @ ex = (ds1 @ ds2) @ ex"
    by simp
  from assms(1) assms(4) have d: "list_all is_digit (ds1 @ ds2)"
    by simp
  from assms(3) have n: "ds1 @ ds2 \<noteq> []"
    by simp
  note t = digits_then_exponent [OF d n assms(5)]
  show ?thesis
  proof (cases ex)
    case Nil
    with n show ?thesis
      unfolding e decimal_literal_def t Let_def by simp
  next
    case (Cons c r)
    with exponent_text_head [OF assms(5)] have "c \<noteq> CHR ''.''"
      by simp
    with n Cons exponent_text_ok [OF assms(5)] show ?thesis
      unfolding e decimal_literal_def t Let_def by simp
  qed
next
  case False
  with assms(2) have e: "ds1 @ pt @ ds2 @ ex = ds1 @ (CHR ''.'' # ds2 @ ex)"
    by simp
  have "\<not> is_digit (hd (CHR ''.'' # ds2 @ ex))"
    by (simp add: is_digit_def)
  then have "CHR ''.'' # ds2 @ ex = [] \<or> \<not> is_digit (hd (CHR ''.'' # ds2 @ ex))"
    by blast
  note t1 = takeWhile_digits [OF assms(1) this]
  note t2 = digits_then_exponent [OF assms(4) assms(3) assms(5)]
  from assms(3) exponent_text_ok [OF assms(5)] show ?thesis
    unfolding e decimal_literal_def t1 Let_def list.case if_True t2 by simp
qed

lemma py_strip_id:
  assumes "w \<noteq> []" and "\<not> py_isspace (hd w)" and "\<not> py_isspace (last w)"
  shows "py_strip w = w"
proof -
  from assms(1) assms(2) have 1: "dropWhile py_isspace w = w"
    by (cases w) simp_all
  from assms(1) assms(3) have "dropWhile py_isspace (rev w) = rev w"
    by (cases "rev w") (simp_all add: hd_rev [symmetric])
  with 1 show ?thesis
    by (simp add: py_strip_def)
qed

lemma number_text_float:
  assumes "number_text w"
  shows "float_literal w" and "py_strip w = w" and "w \<noteq> []"
proof -
  from assms obtain sg ds1 pt ds2 ex where w: "w = sg @ ds1 @ pt @ ds2 @ ex" "sign_text sg"
    "list_all is_digit ds1" "pt = [] \<or> pt = ''.''" "ds2 \<noteq> []" "list_all is_digit ds2"
    "exponent_text ex"
    unfolding number_text_def by blast
  let ?r = "ds1 @ pt @ ds2 @ ex"
  from w(5) have r: "?r \<noteq> []"
    by simp
  from w(5) w(6) have d2: "is_digit (hd ds2)" "is_digit (last ds2)"
    by (cases ds2; simp add: list_all_iff)+
  have hr: "is_digit (hd ?r) \<or> hd ?r = CHR ''.''"
  proof (cases ds1)
    case Nil
    with w(4) d2(1) w(5) show ?thesis
      by (cases ds2) auto
  next
    case (Cons c cs)
    with w(3) show ?thesis
      by simp
  qed
  then have hs: "hd ?r \<noteq> CHR ''+''" "hd ?r \<noteq> CHR ''-''" "\<not> py_isspace (hd ?r)"
    using is_digit_chars [of "hd ?r"] by (auto simp add: py_isspace_def)
  from drop_sign_signed [OF w(2) r hs(1) hs(2)] w(1) have "drop_sign w = ?r"
    by simp
  with unsigned_number_decimal [OF w(3) w(4) w(5) w(6) w(7)] show "float_literal w"
    by (simp add: float_literal_def)
  from w(1) r show "w \<noteq> []"
    by simp
  have hw: "\<not> py_isspace (hd w)"
  proof (cases "sg = []")
    case True
    with w(1) hs(3) show ?thesis by simp
  next
    case False
    with w(2) w(1) show ?thesis
      by (auto simp add: sign_text_def py_isspace_def)
  qed
  have "is_digit (last w)"
  proof (cases "ex = []")
    case True
    with w(1) w(5) d2(2) show ?thesis by simp
  next
    case False
    with w(7) obtain e sg2 ds where ex: "ex = e # sg2 @ ds" "ds \<noteq> []" "list_all is_digit ds"
      unfolding exponent_text_def by blast
    from ex(2) ex(3) have "is_digit (last ds)"
      by (cases ds rule: rev_cases) simp_all
    with w(1) ex(1) ex(2) show ?thesis by simp
  qed
  then have "\<not> py_isspace (last w)"
    using is_digit_chars by blast
  from py_strip_id [OF \<open>w \<noteq> []\<close> hw this] show "py_strip w = w" .
qed

lemma number_text_is_number: "number_text w \<Longrightarrow> is_number (PStr w)"
  using number_text_float [of w] by (simp add: is_number_def)

subsection \<open>Lengths\<close>

lemma grps_Lits: "grps (Lits s) = {}"
  by (induction s rule: Lits.induct) simp_all

lemma grps_Alts_Lits: "grps (Alts (map Lits us)) = {}"
  by (induction us rule: induct_list012) (simp_all add: grps_Lits)

lemma groups_Suc:
  "groups m (Suc n) = (case group m 1 of Some t \<Rightarrow> PStr t | None \<Rightarrow> PNone) #
     map (\<lambda>i. case group m i of Some t \<Rightarrow> PStr t | None \<Rightarrow> PNone) [2 ..< Suc (Suc n)]"
proof -
  have "[Suc 0 ..< Suc (Suc n)] = Suc 0 # [Suc (Suc 0) ..< Suc (Suc n)]"
    by (rule upt_conv_Cons) simp
  then show ?thesis
    by (simp add: groups_def numeral_2_eq_2)
qed

lemma hd_groups: "hd (groups m (Suc n)) = (case group m 1 of Some t \<Rightarrow> PStr t | None \<Rightarrow> PNone)"
  by (simp only: groups_Suc list.sel)

text \<open>
  Every match of a number with an optional unit starts with a number, and group 1 holds
  that number, whatever the unit pattern is.
\<close>

lemma with_unit_match:
  assumes "st \<in> set (rmatch (with_unit us) (t, g))"
  shows "\<exists>w rest. number_text w \<and> t = w @ rest \<and> group st 1 = Some w"
proof -
  from assms obtain st1 where st1: "st1 \<in> set (rmatch (Grp 1 number_re) (t, g))"
    "st \<in> set (rmatch (Opt (Grp 3 (Alts (map Lits us)))) st1)"
    by (auto simp add: with_unit_def)
  from rmatch_Grp [OF st1(1)] obtain w where w: "w \<in> lang number_re" "t = w @ fst st1"
    "snd st1 1 = Some w"
    by auto
  have "1 \<notin> grps (Opt (Grp 3 (Alts (map Lits us))))"
    by (simp add: Opt_def grps_Alts_Lits)
  from rmatch_preserve [OF this st1(2)] w(3) have "group st 1 = Some w"
    by (simp add: group_def)
  with w(1) w(2) show ?thesis
    using lang_number_re by blast
qed

lemma with_unit_lang:
  assumes "number_text w"
  shows "w \<in> lang (with_unit us)"
proof -
  from assms have "w \<in> lang (Grp 1 number_re)"
    by (simp add: lang_number_re)
  moreover have "[] \<in> lang (Opt (Grp 3 (Alts (map Lits us))))"
    by (simp add: lang_Opt)
  ultimately have "w @ [] \<in> lang (with_unit us)"
    unfolding with_unit_def lang_Cat_iff by blast
  then show ?thesis by simp
qed

lemma with_unit_re_match:
  "re_match (with_unit us) t \<noteq> None \<longleftrightarrow> (\<exists>w rest. number_text w \<and> t = w @ rest)"
proof
  assume "re_match (with_unit us) t \<noteq> None"
  then obtain st where "st \<in> set (rmatch (with_unit us) (t, Map.empty))"
    using re_match_SomeD by blast
  from with_unit_match [OF this] show "\<exists>w rest. number_text w \<and> t = w @ rest"
    by blast
next
  assume "\<exists>w rest. number_text w \<and> t = w @ rest"
  then obtain w rest where "number_text w" "t = w @ rest"
    by blast
  with with_unit_lang [of w us] show "re_match (with_unit us) t \<noteq> None"
    unfolding re_match_iff by blast
qed

lemma pattern_length_re_match:
  "re_match pattern_length t \<noteq> None \<longleftrightarrow> (\<exists>w rest. number_text w \<and> t = w @ rest)"
  unfolding pattern_length_def by (rule with_unit_re_match)

text \<open>
  A string is a length exactly when, stripped, it starts with a number: the number the
  pattern found always passes \<^verbatim>\<open>is_number\<close>, and nothing looks at what follows it.
\<close>

lemma is_length_str:
  "is_length (PStr s) \<longleftrightarrow> (\<exists>w rest. number_text w \<and> py_strip s = w @ rest)"
proof (cases "re_match pattern_length (py_strip s)")
  case None
  then have "\<not> is_length (PStr s)"
    by simp
  moreover from None pattern_length_re_match [of "py_strip s"]
  have "\<not> (\<exists>w rest. number_text w \<and> py_strip s = w @ rest)"
    by simp
  ultimately show ?thesis
    by blast
next
  case (Some result)
  then have "result \<in> set (rmatch pattern_length (py_strip s, Map.empty))"
    by (rule re_match_SomeD)
  from with_unit_match [OF this [unfolded pattern_length_def]]
  obtain w rest where w: "number_text w" "py_strip s = w @ rest" "group result 1 = Some w"
    by blast
  from w(3) have "hd (groups result 3) = PStr w"
    by (simp add: hd_groups numeral_3_eq_3)
  with Some w(1) have "is_length (PStr s)"
    by (simp add: number_text_is_number)
  with w(1) w(2) show ?thesis
    by blast
qed

lemma length_examples:
  "is_length (PStr ''10px'')" "is_length (PStr ''10xyz'')" "\<not> is_length PNone"
  "\<not> is_length (PStr ''px'')"
  by code_simp+

subsection \<open>Shapes\<close>

lemma star_Dot: "w \<in> star (lang Dot) \<longleftrightarrow> CHR 0x0A \<notin> set w"
proof
  assume "w \<in> star (lang Dot)"
  then obtain ws where ws: "w = concat ws" "set ws \<subseteq> lang Dot"
    unfolding star_def by blast
  from ws(2) have "CHR 0x0A \<notin> set (concat ws)"
    by (induction ws) auto
  with ws(1) show "CHR 0x0A \<notin> set w"
    by simp
next
  assume n: "CHR 0x0A \<notin> set w"
  have c: "w = concat (map (\<lambda>c. [c]) w)"
    by (induction w) simp_all
  from n have "set (map (\<lambda>c. [c]) w) \<subseteq> lang Dot"
    by auto
  with c show "w \<in> star (lang Dot)"
    unfolding star_def by blast
qed



lemma lang_Lits: "lang (Lits s) = {s}"
  by (induction s rule: Lits.induct) simp_all


lemma shape_lang:
  assumes "CHR 0x0A \<notin> set a" "CHR 0x0A \<notin> set b" "CHR 0x0A \<notin> set c" "CHR 0x0A \<notin> set d"
  shows "''rect('' @ a @ '','' @ b @ '','' @ c @ '','' @ d @ '')'' \<in> lang SHAPE_PATTERN"
proof -
  let ?R7 = "Cat (Grp 4 (Star Dot)) (Lit (CHR '')''))"
  let ?R6 = "Cat (Lit (CHR '','')) ?R7"
  let ?R5 = "Cat (Grp 3 (Star Dot)) ?R6"
  let ?R4 = "Cat (Lit (CHR '','')) ?R5"
  let ?R3 = "Cat (Grp 2 (Star Dot)) ?R4"
  let ?R2 = "Cat (Lit (CHR '','')) ?R3"
  let ?R1 = "Cat (Grp 1 (Star Dot)) ?R2"
  have g: "\<And>k w. CHR 0x0A \<notin> set w \<Longrightarrow> w \<in> lang (Grp k (Star Dot))"
    unfolding lang.simps(8) lang.simps(7) star_Dot .
  have l: "''rect('' \<in> lang (Lits ''rect('')" "'','' \<in> lang (Lit (CHR '',''))"
    "'')'' \<in> lang (Lit (CHR '')''))"
    by (simp_all add: lang_Lits)
  from g [OF assms(4)] l(3) have "d @ '')'' \<in> lang ?R7"
    unfolding lang_Cat_iff [of "d @ '')''"] by blast
  with l(2) have "'','' @ d @ '')'' \<in> lang ?R6"
    unfolding lang_Cat_iff [of "'','' @ d @ '')''"] by blast
  with g [OF assms(3)] have "c @ '','' @ d @ '')'' \<in> lang ?R5"
    unfolding lang_Cat_iff [of "c @ '','' @ d @ '')''"] by blast
  with l(2) have "'','' @ c @ '','' @ d @ '')'' \<in> lang ?R4"
    unfolding lang_Cat_iff [of "'','' @ c @ '','' @ d @ '')''"] by blast
  with g [OF assms(2)] have "b @ '','' @ c @ '','' @ d @ '')'' \<in> lang ?R3"
    unfolding lang_Cat_iff [of "b @ '','' @ c @ '','' @ d @ '')''"] by blast
  with l(2) have "'','' @ b @ '','' @ c @ '','' @ d @ '')'' \<in> lang ?R2"
    unfolding lang_Cat_iff [of "'','' @ b @ '','' @ c @ '','' @ d @ '')''"] by blast
  with g [OF assms(1)] have "a @ '','' @ b @ '','' @ c @ '','' @ d @ '')'' \<in> lang ?R1"
    unfolding lang_Cat_iff [of "a @ '','' @ b @ '','' @ c @ '','' @ d @ '')''"] by blast
  with l(1) have "''rect('' @ a @ '','' @ b @ '','' @ c @ '','' @ d @ '')'' \<in>
      lang (Cat (Lits ''rect('') ?R1)"
    unfolding lang_Cat_iff [of "''rect('' @ a @ '','' @ b @ '','' @ c @ '','' @ d @ '')''"]
    by blast
  then show ?thesis
    by (simp only: SHAPE_PATTERN_def)
qed



subsection \<open>Printed numbers are numbers\<close>
















subsection \<open>Splitting at separators\<close>

lemma star_iter_hd:
  assumes f: "\<And>x xs g. f (x # xs, g) = (if x = c then [(xs, g)] else [])"
    "\<And>g. f ([], g) = []"
  shows "length s \<le> n \<Longrightarrow> \<exists>tl. star_iter f n (s, g) = (dropWhile (\<lambda>x. x = c) s, g) # tl"
proof (induction s arbitrary: n)
  case Nil
  then show ?case by (cases n) (simp_all add: f)
next
  case (Cons x xs)
  then obtain m where n: "n = Suc m" "length xs \<le> m"
    by (cases n) auto
  show ?case
  proof (cases "x = c")
    case True
    from Cons.IH [OF n(2)] obtain tl where
      "star_iter f m (xs, g) = (dropWhile (\<lambda>x. x = c) xs, g) # tl"
      by blast
    with True n(1) show ?thesis
      by (simp add: f)
  next
    case False
    with n(1) show ?thesis
      by (simp add: f)
  qed
qed

lemma rmatch_Star_Lit_hd:
  "\<exists>tl. rmatch (Star (Lit c)) (s, g) = (dropWhile (\<lambda>x. x = c) s, g) # tl"
proof -
  have "\<exists>tl. star_iter (rmatch (Lit c)) (length s) (s, g) = (dropWhile (\<lambda>x. x = c) s, g) # tl"
    by (rule star_iter_hd) simp_all
  then show ?thesis
    by simp
qed

lemma rmatch_Opt_Lit_hd: "\<exists>tl. rmatch (Opt (Lit c)) (s, g) = (drop_char c s, g) # tl"
  by (cases s) (simp_all add: Opt_def drop_char_def)

lemma rmatch_Cat_hd:
  assumes "\<exists>tl. rmatch r1 st = st1 # tl" and "\<exists>tl. rmatch r2 st1 = st2 # tl"
  shows "\<exists>tl. rmatch (Cat r1 r2) st = st2 # tl"
  using assms by auto

lemma rmatch_SEPARATOR_hd: "\<exists>tl. rmatch SEPARATOR (s, g) = (skip_separator s, g) # tl"
proof -
  let ?sp = "\<lambda>x. x = CHR '' ''"
  let ?s1 = "dropWhile ?sp s"
  let ?s2 = "drop_char (CHR '','') ?s1"
  have 1: "\<exists>tl. rmatch (Star (Lit (CHR '' ''))) (s, g) = (?s1, g) # tl"
    by (rule rmatch_Star_Lit_hd)
  have 2: "\<exists>tl. rmatch (Opt (Lit (CHR '',''))) (?s1, g) = (?s2, g) # tl"
    by (rule rmatch_Opt_Lit_hd)
  have 3: "\<exists>tl. rmatch (Star (Lit (CHR '' ''))) (?s2, g) = (dropWhile ?sp ?s2, g) # tl"
    by (rule rmatch_Star_Lit_hd)
  from rmatch_Cat_hd [OF 1 rmatch_Cat_hd [OF 2 3]] show ?thesis
    by (simp only: SEPARATOR_def skip_separator_def)
qed

lemma re_match_SEPARATOR: "re_match SEPARATOR s = Some (skip_separator s, Map.empty)"
  using rmatch_SEPARATOR_hd [of s Map.empty] by (auto simp add: re_match_def)

lemma skip_separator_split: "\<exists>sep. s = sep @ skip_separator s \<and> sep \<in> lang SEPARATOR"
proof -
  from rmatch_SEPARATOR_hd [of s Map.empty]
  have "(skip_separator s, Map.empty) \<in> set (rmatch SEPARATOR (s, Map.empty))"
    by auto
  from rmatch_sound [OF this] show ?thesis
    by auto
qed

lemma skip_separator_length: "length (skip_separator s) \<le> length s"
  using skip_separator_split [of s] by (metis length_append le_add2)

lemma star_space: "w \<in> star (lang (Lit c)) \<longleftrightarrow> (\<exists>a. w = replicate a c)"
proof
  assume "w \<in> star (lang (Lit c))"
  then obtain ws where ws: "w = concat ws" "set ws \<subseteq> lang (Lit c)"
    unfolding star_def by blast
  from ws(2) have "concat ws = replicate (length ws) c"
    by (induction ws) auto
  with ws(1) show "\<exists>a. w = replicate a c"
    by blast
next
  assume "\<exists>a. w = replicate a c"
  then obtain a where "w = replicate a c"
    by blast
  then have "w = concat (replicate a [c])" "set (replicate a [c]) \<subseteq> lang (Lit c)"
    by (induction a arbitrary: w) auto
  then show "w \<in> star (lang (Lit c))"
    unfolding star_def by blast
qed

lemma lang_SEPARATOR:
  "w \<in> lang SEPARATOR \<longleftrightarrow>
     (\<exists>a c b. w = replicate a (CHR '' '') @ c @ replicate b (CHR '' '') \<and> (c = [] \<or> c = '',''))"
proof
  assume "w \<in> lang SEPARATOR"
  then obtain u r where 1: "w = u @ r" "u \<in> star (lang (Lit (CHR '' '')))"
    and "r \<in> lang (Cat (Opt (Lit (CHR '',''))) (Star (Lit (CHR '' ''))))"
    unfolding SEPARATOR_def lang_Cat_iff [of w] lang.simps(7) by blast
  then obtain c v where 2: "r = c @ v" "c \<in> lang (Opt (Lit (CHR '','')))"
    "v \<in> star (lang (Lit (CHR '' '')))"
    unfolding lang_Cat_iff [of r] lang.simps(7) by blast
  from 2(2) have "c = [] \<or> c = '',''"
    by (auto simp add: lang_Opt)
  with 1 2 show "\<exists>a c b. w = replicate a (CHR '' '') @ c @ replicate b (CHR '' '') \<and>
      (c = [] \<or> c = '','')"
    unfolding star_space by blast
next
  assume "\<exists>a c b. w = replicate a (CHR '' '') @ c @ replicate b (CHR '' '') \<and> (c = [] \<or> c = '','')"
  then obtain a c b where w: "w = replicate a (CHR '' '') @ c @ replicate b (CHR '' '')"
    "c = [] \<or> c = '',''"
    by blast
  from w(2) have "c \<in> lang (Opt (Lit (CHR '','')))"
    by (auto simp add: lang_Opt)
  moreover have "replicate b (CHR '' '') \<in> lang (Star (Lit (CHR '' '')))"
    "replicate a (CHR '' '') \<in> lang (Star (Lit (CHR '' '')))"
    unfolding lang.simps(7) star_space by blast+
  ultimately have "c @ replicate b (CHR '' '') \<in>
      lang (Cat (Opt (Lit (CHR '',''))) (Star (Lit (CHR '' ''))))"
    and "replicate a (CHR '' '') \<in> lang (Star (Lit (CHR '' '')))"
    unfolding lang_Cat_iff [of "c @ replicate b (CHR '' '')"] by blast+
  with w(1) show "w \<in> lang SEPARATOR"
    unfolding SEPARATOR_def lang_Cat_iff [of w] by blast
qed

lemma separator_head:
  assumes "separator sep"
  shows "hd sep = CHR '' '' \<or> hd sep = CHR '',''"
proof -
  from assms obtain a c b where s: "sep \<noteq> []"
    "sep = replicate a (CHR '' '') @ c @ replicate b (CHR '' '')" "c = [] \<or> c = '',''"
    unfolding separator_def lang_SEPARATOR by blast
  show ?thesis
  proof (cases a)
    case (Suc k)
    with s(2) show ?thesis by simp
  next
    case 0
    show ?thesis
    proof (cases "c = []")
      case True
      with 0 s(1) s(2) obtain k where "b = Suc k"
        by (cases b) auto
      with True 0 s(2) show ?thesis by simp
    next
      case False
      with s(3) 0 s(2) show ?thesis by simp
    qed
  qed
qed

text \<open>The first match takes a whole separator when a token follows it.\<close>

lemma skip_separator_exact:
  assumes "sep \<in> lang SEPARATOR" and "y = [] \<or> (hd y \<noteq> CHR '' '' \<and> hd y \<noteq> CHR '','')"
  shows "skip_separator (sep @ y) = y"
proof -
  from assms(1) obtain a c b where s:
    "sep = replicate a (CHR '' '') @ c @ replicate b (CHR '' '')" "c = [] \<or> c = '',''"
    unfolding lang_SEPARATOR by blast
  from assms(2) have y: "dropWhile (\<lambda>x. x = CHR '' '') y = y" "drop_char (CHR '','') y = y"
    by (cases y; simp add: drop_char_def)+
  have d: "\<And>k r. dropWhile (\<lambda>x. x = CHR '' '') (replicate k (CHR '' '') @ r) =
      dropWhile (\<lambda>x. x = CHR '' '') r"
    by (rule dropWhile_append2) simp
  show ?thesis
  proof (cases "c = []")
    case True
    with s(1) have "sep @ y = replicate a (CHR '' '') @ replicate b (CHR '' '') @ y"
      by simp
    then show ?thesis
      unfolding skip_separator_def by (simp only: d y)
  next
    case False
    with s have "sep @ y = replicate a (CHR '' '') @ CHR '','' # replicate b (CHR '' '') @ y"
      by simp
    then have "skip_separator (sep @ y) = dropWhile (\<lambda>x. x = CHR '' '')
        (drop_char (CHR '','') (CHR '','' # replicate b (CHR '' '') @ y))"
      unfolding skip_separator_def by (simp only: d) simp
    also have "\<dots> = dropWhile (\<lambda>x. x = CHR '' '') (replicate b (CHR '' '') @ y)"
      by (simp add: drop_char_def)
    also have "\<dots> = y"
      by (simp only: d y)
    finally show ?thesis .
  qed
qed

lemma skip_separator_progress:
  "length (skip_separator s) < length s \<longleftrightarrow> s \<noteq> [] \<and> (hd s = CHR '' '' \<or> hd s = CHR '','')"
proof
  assume p: "length (skip_separator s) < length s"
  from skip_separator_split [of s] obtain sep where sep: "s = sep @ skip_separator s"
    "sep \<in> lang SEPARATOR"
    by blast
  with p have "sep \<noteq> []"
    by auto
  with sep(2) have "separator sep"
    by (simp add: separator_def)
  from separator_head [OF this] \<open>sep \<noteq> []\<close> sep(1)
  show "s \<noteq> [] \<and> (hd s = CHR '' '' \<or> hd s = CHR '','')"
    by (metis append_is_Nil_conv hd_append2)
next
  assume "s \<noteq> [] \<and> (hd s = CHR '' '' \<or> hd s = CHR '','')"
  then obtain c cs where s: "s = c # cs" "c = CHR '' '' \<or> c = CHR '',''"
    by (cases s) auto
  have l: "\<And>t. length (dropWhile (\<lambda>x. x = CHR '' '') t) \<le> length t"
    by (simp add: length_dropWhile_le)
  have k: "\<And>t. length (drop_char (CHR '','') t) \<le> length t"
    by (simp add: drop_char_def split: list.split)
  from s(2) show "length (skip_separator s) < length s"
  proof
    assume "c = CHR '' ''"
    with s(1) have "skip_separator s = skip_separator cs"
      by (simp add: skip_separator_def)
    with skip_separator_length [of cs] s(1) show ?thesis
      by simp
  next
    assume c: "c = CHR '',''"
    with s(1) have "skip_separator s = dropWhile (\<lambda>x. x = CHR '' '') cs"
      by (simp add: skip_separator_def drop_char_def)
    with l [of cs] s(1) show ?thesis
      by simp
  qed
qed

lemma split_loop_unfold:
  "re_split_loop SEPARATOR seg s =
     (if length (skip_separator s) < length s
      then seg # re_split_loop SEPARATOR [] (skip_separator s)
      else (case s of [] \<Rightarrow> [seg] | c # cs \<Rightarrow> re_split_loop SEPARATOR (seg @ [c]) cs))"
  by (subst re_split_loop.simps) (simp add: re_match_SEPARATOR)

lemma split_loop_progress:
  assumes "s \<noteq> []" and "hd s = CHR '' '' \<or> hd s = CHR '',''"
  shows "re_split_loop SEPARATOR seg s = seg # re_split_loop SEPARATOR [] (skip_separator s)"
proof -
  from assms have "length (skip_separator s) < length s"
    using skip_separator_progress [of s] by blast
  then show ?thesis
    by (subst split_loop_unfold) simp
qed

lemma split_loop_Nil: "re_split_loop SEPARATOR seg [] = [seg]"
  by (subst split_loop_unfold) simp

lemma split_loop_token:
  assumes "c \<noteq> CHR '' ''" and "c \<noteq> CHR '',''"
  shows "re_split_loop SEPARATOR seg (c # cs) = re_split_loop SEPARATOR (seg @ [c]) cs"
proof -
  from assms have "\<not> length (skip_separator (c # cs)) < length (c # cs)"
    using skip_separator_progress [of "c # cs"] by simp
  then show ?thesis
    by (subst split_loop_unfold) simp
qed

lemma split_loop_cases:
  obtains (stop) "s = []"
  | (sep) "s \<noteq> []" "hd s = CHR '' '' \<or> hd s = CHR '',''"
  | (token) c cs where "s = c # cs" "c \<noteq> CHR '' ''" "c \<noteq> CHR '',''"
  by (cases s) auto

lemma split_loop_nonempty: "re_split_loop SEPARATOR seg s \<noteq> []"
proof (induction s arbitrary: seg rule: length_induct)
  case (1 s)
  show ?case
  proof (cases s rule: split_loop_cases)
    case stop
    then show ?thesis by (simp add: split_loop_Nil)
  next
    case sep
    then show ?thesis by (simp add: split_loop_progress)
  next
    case (token c cs)
    with 1 [rule_format, of cs "seg @ [c]"] show ?thesis
      by (simp add: split_loop_token)
  qed
qed

text \<open>One piece comes out exactly when the text has no separator in it.\<close>

lemma split_loop_one:
  "re_split_loop SEPARATOR seg s = [x] \<longleftrightarrow> x = seg @ s \<and> sep_free s"
proof (induction s arbitrary: seg rule: length_induct)
  case (1 s)
  show ?case
  proof (cases s rule: split_loop_cases)
    case stop
    then show ?thesis by (auto simp add: split_loop_Nil sep_free_def)
  next
    case sep
    then have "\<not> sep_free s"
      by (cases s) (auto simp add: sep_free_def)
    moreover from sep split_loop_nonempty [of "[]" "skip_separator s"]
    have "re_split_loop SEPARATOR seg s \<noteq> [x]"
      by (simp add: split_loop_progress)
    ultimately show ?thesis
      by blast
  next
    case (token c cs)
    from 1 [rule_format, of cs "seg @ [c]"] token(1)
    have "re_split_loop SEPARATOR (seg @ [c]) cs = [x] \<longleftrightarrow> x = (seg @ [c]) @ cs \<and> sep_free cs"
      by simp
    with token show ?thesis
      by (simp add: split_loop_token sep_free_def)
  qed
qed

text \<open>Two pieces come out exactly when one separator stands between two tokens.\<close>

lemma split_loop_two:
  "re_split_loop SEPARATOR seg s = [x, y] \<longleftrightarrow>
     (\<exists>u sep. s = u @ sep @ y \<and> x = seg @ u \<and> sep_free u \<and> separator sep \<and> sep_free y)"
proof (induction s arbitrary: seg rule: length_induct)
  case (1 s)
  show ?case
  proof (cases s rule: split_loop_cases)
    case stop
    have "\<not> (\<exists>u sep. s = u @ sep @ y \<and> x = seg @ u \<and> sep_free u \<and> separator sep \<and> sep_free y)"
      using stop by (auto simp add: separator_def)
    with stop show ?thesis
      by (simp add: split_loop_Nil)
  next
    case sep
    have l: "re_split_loop SEPARATOR seg s = [x, y] \<longleftrightarrow>
        x = seg \<and> y = skip_separator s \<and> sep_free (skip_separator s)"
      using sep split_loop_one [of "[]" "skip_separator s" y]
      by (auto simp add: split_loop_progress)
    have "(\<exists>u sp. s = u @ sp @ y \<and> x = seg @ u \<and> sep_free u \<and> separator sp \<and> sep_free y) \<longleftrightarrow>
        x = seg \<and> y = skip_separator s \<and> sep_free (skip_separator s)" (is "?l \<longleftrightarrow> ?r")
    proof
      assume ?l
      then obtain u sp where d: "s = u @ sp @ y" "x = seg @ u" "sep_free u" "separator sp"
        "sep_free y"
        by blast
      have "u = []"
      proof (rule ccontr)
        assume "u \<noteq> []"
        with d(1) have "hd s = hd u" "hd u \<in> set u"
          by simp_all
        with d(3) sep(2) show False
          by (auto simp add: sep_free_def)
      qed
      from d(5) have "y = [] \<or> (hd y \<noteq> CHR '' '' \<and> hd y \<noteq> CHR '','')"
        by (cases y) (auto simp add: sep_free_def)
      from skip_separator_exact [OF _ this, of sp] d(4) have "skip_separator (sp @ y) = y"
        by (simp add: separator_def)
      with d \<open>u = []\<close> show ?r
        by simp
    next
      assume r: ?r
      from skip_separator_split [of s] obtain sp where sp: "s = sp @ skip_separator s"
        "sp \<in> lang SEPARATOR"
        by blast
      from sep have "length (skip_separator s) < length s"
        using skip_separator_progress [of s] by blast
      with sp(1) have "sp \<noteq> []"
        by auto
      with sp(2) have "separator sp"
        by (simp add: separator_def)
      moreover from sp(1) r have "s = [] @ sp @ y" "x = seg @ []" "sep_free y"
        by simp_all
      moreover have "sep_free []"
        by (simp add: sep_free_def)
      ultimately show ?l
        by blast
    qed
    with l show ?thesis
      by blast
  next
    case (token c cs)
    from 1 [rule_format, of cs "seg @ [c]"] token(1)
    have ih: "re_split_loop SEPARATOR (seg @ [c]) cs = [x, y] \<longleftrightarrow>
        (\<exists>u sp. cs = u @ sp @ y \<and> x = (seg @ [c]) @ u \<and> sep_free u \<and> separator sp \<and> sep_free y)"
      by simp
    have "(\<exists>u sp. cs = u @ sp @ y \<and> x = (seg @ [c]) @ u \<and> sep_free u \<and> separator sp \<and> sep_free y)
        \<longleftrightarrow> (\<exists>u sp. s = u @ sp @ y \<and> x = seg @ u \<and> sep_free u \<and> separator sp \<and> sep_free y)"
      (is "?l \<longleftrightarrow> ?r")
    proof
      assume ?l
      then obtain u sp where d: "cs = u @ sp @ y" "x = (seg @ [c]) @ u" "sep_free u"
        "separator sp" "sep_free y"
        by blast
      with token have "s = (c # u) @ sp @ y" "x = seg @ (c # u)" "sep_free (c # u)"
        by (simp_all add: sep_free_def)
      with d(4) d(5) show ?r
        by blast
    next
      assume ?r
      then obtain u sp where d: "s = u @ sp @ y" "x = seg @ u" "sep_free u" "separator sp"
        "sep_free y"
        by blast
      have "u \<noteq> []"
      proof
        assume "u = []"
        with d(1) d(4) have "hd s = hd sp"
          by (simp add: separator_def)
        with separator_head [OF d(4)] token show False
          by simp
      qed
      then obtain u' where u: "u = c # u'"
        using d(1) token(1) by (cases u) auto
      with d token(1) have "cs = u' @ sp @ y" "x = (seg @ [c]) @ u'" "sep_free u'"
        by (simp_all add: sep_free_def)
      with d(4) d(5) show ?l
        by blast
    qed
    then have eq: "(\<exists>u sp. cs = u @ sp @ y \<and> x = (seg @ [c]) @ u \<and> sep_free u \<and> separator sp \<and>
        sep_free y) \<longleftrightarrow>
        (\<exists>u sep. s = u @ sep @ y \<and> x = seg @ u \<and> sep_free u \<and> separator sep \<and> sep_free y)" .
    from token have e: "re_split_loop SEPARATOR seg s = re_split_loop SEPARATOR (seg @ [c]) cs"
      by (simp add: split_loop_token)
    show ?thesis
      unfolding e by (simp only: ih eq)
  qed
qed

lemma length_one_or_two:
  "0 < length xs \<and> length xs < 3 \<longleftrightarrow> (\<exists>x. xs = [x]) \<or> (\<exists>x y. xs = [x, y])"
proof (cases xs)
  case Nil
  then show ?thesis by simp
next
  case (Cons a as)
  note c1 = this
  show ?thesis
  proof (cases as)
    case Nil
    with c1 show ?thesis by simp
  next
    case (Cons b bs)
    with c1 show ?thesis by (cases bs) simp_all
  qed
qed

text \<open>The string branch of \<^verbatim>\<open>is_number_optional_number\<close> against the words of the spec.\<close>

lemma is_number_optional_number_str:
  "is_number_optional_number (PStr s) \<longleftrightarrow> spec_number_optional_number (PStr s)"
proof -
  let ?t = "py_strip s"
  let ?vs = "re_split SEPARATOR ?t"
  have "is_number_optional_number (PStr s) \<longleftrightarrow>
      (\<exists>x. ?vs = [x] \<and> is_number (PStr x)) \<or>
      (\<exists>x y. ?vs = [x, y] \<and> is_number (PStr x) \<and> is_number (PStr y))"
  proof (cases "0 < length ?vs \<and> length ?vs < 3")
    case True
    then have "(\<exists>x. ?vs = [x]) \<or> (\<exists>x y. ?vs = [x, y])"
      using length_one_or_two [of ?vs] by blast
    then show ?thesis
      by (auto simp add: Let_def)
  next
    case False
    then have "\<not> ((\<exists>x. ?vs = [x]) \<or> (\<exists>x y. ?vs = [x, y]))"
      using length_one_or_two [of ?vs] by blast
    with False show ?thesis
      by (auto simp add: Let_def)
  qed
  also have "(\<exists>x. ?vs = [x] \<and> is_number (PStr x)) \<longleftrightarrow> sep_free ?t \<and> is_number (PStr ?t)"
    using split_loop_one [of "[]" ?t] by (auto simp add: re_split_def)
  also have "(\<exists>x y. ?vs = [x, y] \<and> is_number (PStr x) \<and> is_number (PStr y)) \<longleftrightarrow>
      (\<exists>n1 sep n2. ?t = n1 @ sep @ n2 \<and> sep_free n1 \<and> separator sep \<and> sep_free n2 \<and>
         is_number (PStr n1) \<and> is_number (PStr n2))"
    unfolding re_split_def split_loop_two by auto
  finally show ?thesis
    by (simp add: spec_number_optional_number_def)
qed

lemma is_number_optional_number_spec:
  "is_number_optional_number v \<longleftrightarrow> spec_number_optional_number v"
proof (cases v)
  case (PStr s)
  then show ?thesis
    by (simp only: is_number_optional_number_str)
next
  case (PTuple xs)
  then show ?thesis
  proof (cases xs)
    case Nil
    with PTuple show ?thesis by (simp add: spec_number_optional_number_def)
  next
    case (Cons a as)
    note c1 = this
    show ?thesis
    proof (cases as)
      case Nil
      with PTuple c1 show ?thesis by (simp add: spec_number_optional_number_def)
    next
      case (Cons b bs)
      with PTuple c1 show ?thesis
        by (cases bs) (simp_all add: spec_number_optional_number_def)
    qed
  qed
next
  case (PList xs)
  then show ?thesis
  proof (cases xs)
    case Nil
    with PList show ?thesis by (simp add: spec_number_optional_number_def)
  next
    case (Cons a as)
    note c1 = this
    show ?thesis
    proof (cases as)
      case Nil
      with PList c1 show ?thesis by (simp add: spec_number_optional_number_def)
    next
      case (Cons b bs)
      with PList c1 show ?thesis
        by (cases bs) (simp_all add: spec_number_optional_number_def)
    qed
  qed
qed (simp_all add: spec_number_optional_number_def)

lemma number_optional_number_examples:
  "is_number_optional_number (PStr ''5'')" "is_number_optional_number (PStr ''5,10'')"
  "\<not> is_number_optional_number (PStr ''5,10,15'')"
  "is_number_optional_number (PTuple [PInt 5, PInt 10])"
  "is_number_optional_number (PStr ''5 , 10'')" "\<not> is_number_optional_number (PStr ''5,,10'')"
  "\<not> is_number_optional_number (PTuple [PInt 5])"
  "\<not> is_number_optional_number (PTuple [PInt 5, PInt 10, PInt 15])"
  "is_number_optional_number (PInt 5)" "\<not> is_number_optional_number PNone"
  by code_simp+

subsection \<open>What \<^verbatim>\<open>check\<close> dispatches to\<close>

lemmas dispatch_defs = check_def get_func_by_name_def methods_def replace_def pure_def

lemma check_number: "check ''number'' v = Inr (is_number v)"
  by (simp add: dispatch_defs)


lemma check_length: "check ''length'' v = Inr (is_length v)"
  by (simp add: dispatch_defs)

lemma check_coordinate: "check ''coordinate'' v = Inr (is_length v)"
  by (simp add: dispatch_defs)

lemma check_angle: "check ''angle'' v = Inr (is_angle v)"
  by (simp add: dispatch_defs)




lemma check_name: "check ''name'' v = Inr (is_name v)"
  by (simp add: dispatch_defs)

lemma check_number_optional_number:
  "check ''number-optional-number'' v = Inr (is_number_optional_number v)"
  by (simp add: dispatch_defs)

lemma check_shape: "check ''shape'' v = is_shape v"
  by (simp add: dispatch_defs)

lemma check_FuncIRI: "check ''FuncIRI'' v = is_FuncIRI v"
  by (simp add: dispatch_defs)

lemma check_list_of: "check (''list-of-'' @ t) v = is_list_of_T v t"
  by (simp add: check_def)

lemma get_func_number: "get_func_by_name ''number'' v = Inr (is_number v)"
  by (simp add: dispatch_defs)

text \<open>
  Reached by its own name, \<^verbatim>\<open>is_list_of_T\<close> is the method with its default element
  type: the entry of the table is the call \<^verbatim>\<open>is_list_of_T(value, 'string')\<close>.
\<close>

lemma get_func_list_of_T: "get_func_by_name ''list_of_T'' v = is_list_of_T v ''string''"
  by (simp add: is_list_of_T_def get_func_by_name_def methods_def replace_def)

subsection \<open>The loop over the elements\<close>

lemma check_each_True:
  "check_each checker vs = Inr True \<longleftrightarrow> (\<forall>x \<in> set vs. checker x = Inr True)"
proof (induction vs)
  case Nil
  show ?case by simp
next
  case (Cons v vs)
  show ?case
  proof (cases "checker v")
    case (Inl e)
    then show ?thesis by simp
  next
    case (Inr ok)
    with Cons show ?thesis by (cases ok) auto
  qed
qed

lemma check_each_anything: "check_each (pure is_anything) vs = Inr True"
  by (simp add: check_each_True pure_def is_anything_def)

lemma split_raises: "split v = Inl e \<longleftrightarrow> e = TypeError \<and> (v = PNone \<or> (\<exists>i. v = PLong i))"
  by (cases v) auto

subsection \<open>Examples evaluated\<close>

lemma list_of_number_empty_tuple: "check ''list-of-number'' (PTuple []) = Inr True"
  by code_simp

lemma list_of_number_empty_string: "split (PStr '''') = Inr [PStr ''''] \<and> check ''list-of-number'' (PStr '''') = Inr False"
  by code_simp

subsection \<open>Names without a rule of their own\<close>

lemma unregistered_func:
  assumes "unregistered typename"
  shows "get_func_by_name typename x = Inr True"
proof -
  from assms have "map_of methods (''is_'' @ replace (CHR ''-'') (CHR ''_'') typename) = None"
    by (simp add: unregistered_def map_of_eq_None_iff)
  then show ?thesis
    by (simp add: get_func_by_name_def pure_def is_anything_def)
qed

lemma permissive_func:
  assumes "typename \<in> set permissive_names"
  shows "get_func_by_name typename x = Inr True"
  using assms
  by (auto simp add: permissive_names_def get_func_by_name_def methods_def replace_def pure_def
      is_anything_def)

lemma list_of_permissive:
  assumes "\<And>x. checker x = Inr True" and "split v = Inr vs"
  shows "list_of checker v = Inr True"
  using assms by (simp add: list_of_def check_each_True)

text \<open>
  A name without a rule of its own that does not begin with \<^verbatim>\<open>list-of-\<close> accepts
  every value; the list of such a type accepts every value that \<^verbatim>\<open>split\<close> can
  hand to the loop.
\<close>

lemma names_without_rule_accept:
  assumes "unregistered typename \<or> typename \<in> set permissive_names"
  shows "take 8 typename \<noteq> ''list-of-'' \<Longrightarrow> check typename v = Inr True"
    and "split v = Inr vs \<Longrightarrow> check (''list-of-'' @ typename) v = Inr True"
proof -
  from assms have f: "get_func_by_name typename x = Inr True" for x
    using unregistered_func permissive_func by blast
  then show "take 8 typename \<noteq> ''list-of-'' \<Longrightarrow> check typename v = Inr True"
    by (simp add: check_def)
  assume "split v = Inr vs"
  with f have "is_list_of_T v typename = Inr True"
    by (simp add: is_list_of_T_def list_of_permissive)
  with check_list_of [of typename v]
  show "check (''list-of-'' @ typename) v = Inr True"
    by simp
qed

subsection \<open>Names and integers\<close>

lemma py_repr_tuple_paren: "CHR ''('' \<in> set (py_repr (PTuple xs))"
  by simp

lemma is_name_tuple: "is_name (PTuple xs) = False"
proof -
  have "CHR ''('' \<in> INVALID_NAME_CHARS \<inter> set (py_str (PTuple xs))"
    by (simp add: INVALID_NAME_CHARS_def)
  then show ?thesis
    by (auto simp add: is_name_def)
qed

lemma is_name_list_all:
  "is_name v = list_all (\<lambda>c. c \<notin> set [CHR '' '', CHR 0x09, CHR 0x0D, CHR 0x0A, CHR '','', CHR ''('', CHR '')'']) (py_str v)"
  by (auto simp add: is_name_def INVALID_NAME_CHARS_def list_all_iff)

lemma name_examples:
  "py_str PNone = ''None''" "is_name PNone = True"
  "py_str (PTuple [PInt 1, PInt 2]) = ''(1, 2)''" "is_name (PTuple [PInt 1, PInt 2]) = False"
  by (simp_all add: is_name_list_all int_str_def digits_of.simps digit_char_def)



section \<open>The claims\<close>

text \<open>
  C1 (the code departs from it). The claim: \<^verbatim>\<open>check\<close> returns a boolean for every
  type name and value and never raises, also for \<^verbatim>\<open>is_shape\<close> and
  \<^verbatim>\<open>is_FuncIRI\<close> on values that are no strings. In the code both call
  \<^verbatim>\<open>value.strip()\<close> without the \<^verbatim>\<open>isinstance\<close> test that \<^verbatim>\<open>is_length\<close>,
  \<^verbatim>\<open>is_angle\<close> and the others make first: for the int 5 the call raises
  \<^verbatim>\<open>AttributeError\<close>.
\<close>

theorem check_raises_on_non_string:
  "check ''shape'' (PInt 5) = Inl AttributeError \<and> check ''FuncIRI'' (PInt 5) = Inl AttributeError"
  by (simp add: check_shape check_FuncIRI is_shape_def is_FuncIRI_def)

text \<open>
  C2 (the code departs from it). The claim: a string is split on white space, then on
  commas, so that \<^verbatim>\<open>check("list-of-number", "1,2, 3")\<close> is true. The code splits
  on the single character \<^verbatim>\<open>' '\<close> and then on \<^verbatim>\<open>','\<close>; a comma followed by a
  space leaves an empty token, which is no number, and the check is false.
\<close>

theorem list_of_number_comma_space_rejected:
  "split (PStr ''1,2, 3'') = Inr [PStr ''1'', PStr ''2'', PStr '''', PStr ''3''] \<and>
   check ''list-of-number'' (PStr ''1,2, 3'') = Inr False"
  by code_simp

text \<open>
  C3, as stated, fails: the empty string is not an empty sequence. It is split into the
  one token \<^verbatim>\<open>''\<close>, and \<^verbatim>\<open>check("list-of-number", "")\<close> is not true.
\<close>

theorem empty_string_list_counterexample:
  "check ''list-of-number'' (PStr '''') \<noteq> Inr True"
  by code_simp

text \<open>
  C3, amended. In the list checker a number (int or float) is a sequence of one element;
  the checker of the element type is applied to the elements, and the result is true
  exactly when every element passes; an empty tuple or list passes; the empty string is
  the sequence of one empty token and \<^verbatim>\<open>check("list-of-number", "")\<close> is false.
\<close>

theorem list_of_T_checks_every_element:
  "split (PInt i) = Inr [PInt i] \<and> split (PFloat f) = Inr [PFloat f] \<and>
   (split v = Inr vs \<longrightarrow>
      (is_list_of_T v t = Inr True \<longleftrightarrow> (\<forall>x \<in> set vs. get_func_by_name t x = Inr True))) \<and>
   check (''list-of-'' @ t) v = is_list_of_T v t \<and>
   check ''list-of-number'' (PTuple []) = Inr True \<and>
   check ''list-of-number'' (PList []) = Inr True \<and>
   split (PStr '''') = Inr [PStr ''''] \<and>
   check ''list-of-number'' (PStr '''') = Inr False"
proof -
  have scalars: "split (PInt i) = Inr [PInt i]" "split (PFloat f) = Inr [PFloat f]"
    by simp_all
  have every: "split v = Inr vs \<longrightarrow>
      (is_list_of_T v t = Inr True \<longleftrightarrow> (\<forall>x \<in> set vs. get_func_by_name t x = Inr True))"
    by (simp add: is_list_of_T_def list_of_def check_each_True)
  have empty_list: "check ''list-of-number'' (PList []) = Inr True"
    by code_simp
  from scalars every check_list_of [of t v] empty_list
    list_of_number_empty_tuple list_of_number_empty_string
  show ?thesis by blast
qed

text \<open>A witness for C3: a tuple whose second element is no number.\<close>

theorem list_of_T_checks_every_element_witness:
  "split (PTuple [PInt 1, PStr ''x'']) = Inr [PInt 1, PStr ''x''] \<and>
   is_list_of_T (PTuple [PInt 1, PStr ''x'']) ''number'' \<noteq> Inr True \<and>
   get_func_by_name ''number'' (PStr ''x'') \<noteq> Inr True"
proof -
  have s: "split (PTuple [PInt 1, PStr ''x'']) = Inr [PInt 1, PStr ''x'']"
    by simp
  have n: "get_func_by_name ''number'' (PStr ''x'') \<noteq> Inr True"
    by code_simp
  from list_of_T_checks_every_element [of _ _ "PTuple [PInt 1, PStr ''x'']" "[PInt 1, PStr ''x'']" "''number''"] s n
  show ?thesis by auto
qed

text \<open>
  C4 (the code departs from it). The claim: for a type name without a registered
  predicate, any unknown name included, \<^verbatim>\<open>check\<close> is true for every value, also for
  \<^verbatim>\<open>None\<close>. The class has no attribute \<^verbatim>\<open>is_list_of_foo\<close>, so \<^verbatim>\<open>list-of-foo\<close>
  is such a name; \<^verbatim>\<open>check\<close> hands it to the list checker, whose \<^verbatim>\<open>split\<close>
  returns \<^verbatim>\<open>None\<close> as it is, and the loop over it raises \<^verbatim>\<open>TypeError\<close>. The
  plain unknown name \<^verbatim>\<open>foo\<close> accepts \<^verbatim>\<open>None\<close>.
\<close>

theorem list_of_unknown_raises_on_None:
  "check ''list-of-foo'' PNone = Inl TypeError \<and> check ''foo'' PNone = Inr True"
  by (simp add: check_def is_list_of_T_def list_of_def get_func_by_name_def methods_def
      replace_def pure_def is_anything_def)

text \<open>
  C9. \<^verbatim>\<open>check("name", value)\<close> is decided on \<^verbatim>\<open>str(value)\<close>: it is true exactly
  when that text has no space, tab, CR, LF, comma or parenthesis. So \<^verbatim>\<open>None\<close>, printed
  \<^verbatim>\<open>None\<close>, is a name, and the tuple \<^verbatim>\<open>(1, 2)\<close>, like every tuple, is not.
\<close>

theorem name_decided_on_printed_form:
  "check ''name'' v =
     Inr (list_all (\<lambda>c. c \<notin> set [CHR '' '', CHR 0x09, CHR 0x0D, CHR 0x0A, CHR '','', CHR ''('', CHR '')''])
            (py_str v)) \<and>
   py_str PNone = ''None'' \<and> check ''name'' PNone = Inr True \<and>
   py_str (PTuple [PInt 1, PInt 2]) = ''(1, 2)'' \<and>
   check ''name'' (PTuple [PInt 1, PInt 2]) = Inr False \<and>
   check ''name'' (PTuple xs) = Inr False"
  using is_name_list_all [of v] name_examples is_name_tuple [of xs]
  by (simp only: check_name simp_thms)


lemma is_length_number: "is_length (PInt i)" "is_length (PFloat f)" "is_length (PBool b)"
  by (simp_all add: is_number_def)

lemma long_examples:
  "\<not> is_length (PLong n)" "is_number (PLong 10)" "is_angle (PLong 10)"
  by (simp_all add: is_number_def is_angle_def number_or_pattern_def long_fits_double_def)

text \<open>
  C6 (the code departs from it). The claim: for \<^verbatim>\<open>length\<close>, and for \<^verbatim>\<open>coordinate\<close>
  which is the same method, a numeric value is accepted, \<^verbatim>\<open>None\<close> is not, and a
  string is accepted when the pattern matches it, nothing but the number found being
  checked again. On the code an int, a float and a bool are accepted, \<^verbatim>\<open>None\<close> is
  not, and a string is accepted exactly when the pattern matches, that is when the
  stripped string starts with a number; so \<^verbatim>\<open>10px\<close> and \<^verbatim>\<open>10xyz\<close> are lengths.
  But \<^verbatim>\<open>isinstance(value, (int, float))\<close> leaves out the longs: a long such as
  \<^verbatim>\<open>10L\<close> is a number for \<^verbatim>\<open>is_number\<close> and an angle for \<^verbatim>\<open>is_angle\<close>, and
  no length.
\<close>

theorem length_of_numbers_and_strings:
  "check ''length'' (PInt i) = Inr True \<and>
   check ''length'' (PFloat f) = Inr True \<and>
   check ''length'' (PBool b) = Inr True \<and>
   check ''length'' PNone = Inr False \<and>
   check ''length'' (PStr s) = Inr (re_match pattern_length (py_strip s) \<noteq> None) \<and>
   check ''length'' (PStr s) = Inr (\<exists>w rest. number_text w \<and> py_strip s = w @ rest) \<and>
   check ''coordinate'' v = check ''length'' v \<and>
   check ''length'' (PStr ''10px'') = Inr True \<and>
   check ''length'' (PStr ''10xyz'') = Inr True \<and>
   check ''length'' (PLong n) = Inr False \<and>
   check ''number'' (PLong 10) = Inr True \<and>
   check ''angle'' (PLong 10) = Inr True"
  using is_length_str [of s] pattern_length_re_match [of "py_strip s"] length_examples
    long_examples(1) [of n] long_examples(2) long_examples(3)
  by (simp only: check_length check_coordinate check_number check_angle is_length_number
      simp_thms)














text \<open>
  C5. \<^verbatim>\<open>check("number-optional-number", value)\<close> never raises, and it is true
  exactly in the cases of the spec: a string that, stripped, is one number or two
  numbers with one separator (spaces, at most one comma, spaces) between them; a tuple
  or list of exactly two numbers; or a value that is a number by itself. So \<^verbatim>\<open>5\<close>,
  \<^verbatim>\<open>5,10\<close> and the tuple \<^verbatim>\<open>(5, 10)\<close> pass, and \<^verbatim>\<open>5,10,15\<close> does not.
\<close>

theorem number_optional_number_is_one_or_two_numbers:
  "check ''number-optional-number'' v = Inr (spec_number_optional_number v) \<and>
   check ''number-optional-number'' (PStr ''5'') = Inr True \<and>
   check ''number-optional-number'' (PStr ''5,10'') = Inr True \<and>
   check ''number-optional-number'' (PTuple [PInt 5, PInt 10]) = Inr True \<and>
   check ''number-optional-number'' (PStr ''5,10,15'') = Inr False \<and>
   check ''number-optional-number'' (PTuple [PInt 5]) = Inr False \<and>
   check ''number-optional-number'' (PTuple [PInt 5, PInt 10, PInt 15]) = Inr False"
  using is_number_optional_number_spec [of v] number_optional_number_examples
  by (simp only: check_number_optional_number simp_thms)

end
